theory Spec2Isabelle
  imports Complex_Main "HOL-Library.Word"
begin

section \<open>JavaScript values\<close>

text \<open>
  A JavaScript string is a sequence of 16-bit code units. \<open>js\<close> turns an ASCII literal
  of the source into such a sequence.
\<close>

type_synonym jschar = "16 word"
type_synonym jsstring = "jschar list"

definition js :: "string \<Rightarrow> jsstring" where
  "js s = map of_char s"

text \<open>A thrown value: an \<open>Error\<close> with its message.\<close>

datatype js_error = Error jsstring

fun message :: "js_error \<Rightarrow> jsstring" where
  "message (Error m) = m"

text \<open>\<open>Array.prototype.join\<close> with a separator.\<close>

fun join :: "jsstring \<Rightarrow> jsstring list \<Rightarrow> jsstring" where
  "join sep [] = []"
| "join sep [x] = x"
| "join sep (x # y # ys) = x @ sep @ join sep (y # ys)"

text \<open>
  \<open>Array.prototype.slice(0, n)\<close> and \<open>String.prototype.substring(0, n)\<close> for an integer
  \<open>n\<close>: a negative end counts from the end of an array, and is clamped to 0 by
  \<open>substring\<close>.
\<close>

definition slice0 :: "int \<Rightarrow> 'a list \<Rightarrow> 'a list" where
  "slice0 n xs = (if n < 0 then take (length xs - nat (- n)) xs else take (nat n) xs)"

definition substring0 :: "int \<Rightarrow> jsstring \<Rightarrow> jsstring" where
  "substring0 n s = (if n < 0 then [] else take (nat n) s)"

text \<open>
  A \<open>Set\<close> built from an array: the distinct elements in order of first insertion.
\<close>

definition Set_add :: "'a list \<Rightarrow> 'a \<Rightarrow> 'a list" where
  "Set_add s x = (if x \<in> set s then s else s @ [x])"

definition new_Set :: "'a list \<Rightarrow> 'a list" where
  "new_Set xs = foldl Set_add [] xs"

text \<open>
  A JavaScript number is an IEEE 754 double: a finite value, an infinity or \<open>NaN\<close>. The
  two zeros are not told apart (no operation below divides by a negative zero). The
  arithmetic of the scoring and ranking code is modelled in doubles: the exact result
  of an operation is rounded to the nearest double, ties to the even significand, with
  gradual underflow and overflow to infinity.
\<close>

datatype double = Finite real | PlusInfinity | MinusInfinity | NaN

definition round_half_even :: "real \<Rightarrow> int" where
  "round_half_even q =
     (let f = \<lfloor>q\<rfloor>
      in if q - of_int f < 1 / 2 then f
         else if q - of_int f > 1 / 2 then f + 1
         else if even f then f else f + 1)"

definition exponent64 :: "real \<Rightarrow> int" where
  "exponent64 x = max (- 1022) \<lfloor>log 2 \<bar>x\<bar>\<rfloor>"

definition round64 :: "real \<Rightarrow> double" where
  "round64 x =
     (if x = 0 then Finite 0
      else let u = 2 powi (exponent64 x - 52);
               y = of_int (round_half_even (x / u)) * u
           in if \<bar>y\<bar> \<ge> 2 ^ 1024 then (if x > 0 then PlusInfinity else MinusInfinity)
              else Finite y)"

fun fl_neg :: "double \<Rightarrow> double" where
  "fl_neg (Finite x) = Finite (- x)"
| "fl_neg PlusInfinity = MinusInfinity"
| "fl_neg MinusInfinity = PlusInfinity"
| "fl_neg NaN = NaN"

fun fl_add :: "double \<Rightarrow> double \<Rightarrow> double" where
  "fl_add (Finite x) (Finite y) = round64 (x + y)"
| "fl_add NaN _ = NaN"
| "fl_add _ NaN = NaN"
| "fl_add PlusInfinity MinusInfinity = NaN"
| "fl_add MinusInfinity PlusInfinity = NaN"
| "fl_add PlusInfinity _ = PlusInfinity"
| "fl_add _ PlusInfinity = PlusInfinity"
| "fl_add MinusInfinity _ = MinusInfinity"
| "fl_add _ MinusInfinity = MinusInfinity"

definition fl_sub :: "double \<Rightarrow> double \<Rightarrow> double" where
  "fl_sub a c = fl_add a (fl_neg c)"

definition signed_infinity :: "bool \<Rightarrow> double" where
  "signed_infinity negative = (if negative then MinusInfinity else PlusInfinity)"

fun fl_mul :: "double \<Rightarrow> double \<Rightarrow> double" where
  "fl_mul (Finite x) (Finite y) = round64 (x * y)"
| "fl_mul NaN _ = NaN"
| "fl_mul _ NaN = NaN"
| "fl_mul (Finite x) PlusInfinity = (if x = 0 then NaN else signed_infinity (x < 0))"
| "fl_mul (Finite x) MinusInfinity = (if x = 0 then NaN else signed_infinity (0 < x))"
| "fl_mul PlusInfinity (Finite y) = (if y = 0 then NaN else signed_infinity (y < 0))"
| "fl_mul MinusInfinity (Finite y) = (if y = 0 then NaN else signed_infinity (0 < y))"
| "fl_mul PlusInfinity PlusInfinity = PlusInfinity"
| "fl_mul MinusInfinity MinusInfinity = PlusInfinity"
| "fl_mul PlusInfinity MinusInfinity = MinusInfinity"
| "fl_mul MinusInfinity PlusInfinity = MinusInfinity"

fun fl_div :: "double \<Rightarrow> double \<Rightarrow> double" where
  "fl_div (Finite x) (Finite y) =
     (if y = 0 then (if x = 0 then NaN else signed_infinity (x < 0)) else round64 (x / y))"
| "fl_div NaN _ = NaN"
| "fl_div _ NaN = NaN"
| "fl_div (Finite x) _ = Finite 0"
| "fl_div PlusInfinity (Finite y) = signed_infinity (y < 0)"
| "fl_div MinusInfinity (Finite y) = signed_infinity (0 \<le> y)"
| "fl_div _ _ = NaN"

fun fl_sqrt :: "double \<Rightarrow> double" where
  "fl_sqrt (Finite x) = (if x < 0 then NaN else round64 (sqrt x))"
| "fl_sqrt PlusInfinity = PlusInfinity"
| "fl_sqrt _ = NaN"

text \<open>The comparisons \<open><\<close> and \<open><=\<close> of numbers; both are false when an operand is \<open>NaN\<close>.\<close>

fun js_lt :: "double \<Rightarrow> double \<Rightarrow> bool" where
  "js_lt NaN _ = False"
| "js_lt _ NaN = False"
| "js_lt (Finite x) (Finite y) = (x < y)"
| "js_lt _ MinusInfinity = False"
| "js_lt MinusInfinity _ = True"
| "js_lt PlusInfinity _ = False"
| "js_lt _ PlusInfinity = True"

fun js_le :: "double \<Rightarrow> double \<Rightarrow> bool" where
  "js_le NaN _ = False"
| "js_le _ NaN = False"
| "js_le (Finite x) (Finite y) = (x \<le> y)"
| "js_le MinusInfinity _ = True"
| "js_le _ PlusInfinity = True"
| "js_le _ _ = False"

text \<open>
  The finite values a double can hold are multiples of the least subnormal; a number
  is a double other than \<open>NaN\<close> whose value, when finite, is such a multiple.
\<close>

definition representable :: "real \<Rightarrow> bool" where
  "representable y \<longleftrightarrow> (\<exists>j::int. y = of_int j * 2 powi (- 1074))"

definition is_number :: "double \<Rightarrow> bool" where
  "is_number d \<longleftrightarrow> d \<noteq> NaN \<and> (\<forall>y. d = Finite y \<longrightarrow> representable y)"

text \<open>
  The external collaborators and library functions the backend calls. Their code is
  not part of the repository, so each is a parameter of the model; a call that can
  throw returns a sum, with the thrown error on the left. Each is a function of its
  argument: within one query operation a collaborator answers the same request in the
  same way. \<open>Math.log\<close> is among them because the language leaves its last digits to the
  implementation.
\<close>

record gen_response =
  response_text :: "js_error + jsstring"
  candidate_text :: "js_error + jsstring"

record services =
  toLowerCase :: "jsstring \<Rightarrow> jsstring"
  WordTokenizer_tokenize :: "jsstring \<Rightarrow> jsstring list"
  SentenceTokenizer_tokenize :: "jsstring \<Rightarrow> js_error + jsstring list"
  compromise_terms :: "jsstring \<Rightarrow> jsstring list"
  ml_distance_cosine :: "double list \<Rightarrow> double list \<Rightarrow> js_error + double"
  generateContent :: "jsstring \<Rightarrow> js_error + gen_response"
  embedContent :: "jsstring \<Rightarrow> js_error + double list"
  Math_log :: "double \<Rightarrow> double"

record chunk =
  chunk_id :: jsstring
  content :: jsstring
  embedding :: "double list option"
  docId :: jsstring
  chunkIndex :: int

section \<open>Performance monitoring: \<open>RAGMetrics\<close>\<close>

text \<open>
  The numbers of the metrics are modelled as exact reals; the query counter, which only
  ever counts up from 0, is a natural number.
\<close>

record metrics =
  totalQueries :: nat
  averageResponseTime :: real
  cacheHitRate :: real
  errorRate :: real
  averageRetrievalAccuracy :: real

definition initial_metrics :: metrics where
  "initial_metrics =
     \<lparr>totalQueries = 0, averageResponseTime = 0, cacheHitRate = 0, errorRate = 0,
      averageRetrievalAccuracy = 0\<rparr>"

text \<open>
  \<open>recordQuery(responseTime, cacheHit, error)\<close>: the counter is incremented first, and
  every later read of \<open>totalQueries\<close> sees the incremented value.
\<close>

definition recordQuery :: "real \<Rightarrow> bool \<Rightarrow> bool \<Rightarrow> metrics \<Rightarrow> metrics" where
  "recordQuery responseTime cacheHit error m =
     (let n = totalQueries m + 1;
          art = (averageResponseTime m * (real n - 1) + responseTime) / real n;
          chr = (if cacheHit then (cacheHitRate m * (real n - 1) + 1) / real n
                 else (cacheHitRate m * (real n - 1)) / real n);
          er = (if error then (errorRate m * (real n - 1) + 1) / real n
                else (errorRate m * (real n - 1)) / real n)
      in m\<lparr>totalQueries := n, averageResponseTime := art, cacheHitRate := chr,
            errorRate := er\<rparr>)"

text \<open>A sequence of calls, oldest first, each given as (responseTime, cacheHit, error).\<close>

fun recordQueries :: "(real \<times> bool \<times> bool) list \<Rightarrow> metrics \<Rightarrow> metrics" where
  "recordQueries [] m = m"
| "recordQueries ((t, c, e) # calls) m = recordQueries calls (recordQuery t c e m)"

definition cacheHitCalls :: "(real \<times> bool \<times> bool) list \<Rightarrow> nat" where
  "cacheHitCalls calls = length (filter (\<lambda>(t, c, e). c) calls)"

definition errorCalls :: "(real \<times> bool \<times> bool) list \<Rightarrow> nat" where
  "errorCalls calls = length (filter (\<lambda>(t, c, e). e) calls)"

section \<open>Answer evaluation: \<open>RAGEvaluator\<close>\<close>

text \<open>
  \<open>calculateSemanticSimilarity\<close> divides the size of the intersection of the two term
  sets by the size of their union. The quotient \<open>0 / 0\<close> is \<open>NaN\<close> in JavaScript, which
  the model writes as \<open>None\<close>; the intersection is never larger than the union, so no
  other division by zero can happen.
\<close>

definition calculateSemanticSimilarity :: "services \<Rightarrow> jsstring \<Rightarrow> jsstring \<Rightarrow> real option" where
  "calculateSemanticSimilarity env text1 text2 =
     (let terms1 = new_Set (compromise_terms env text1);
          terms2 = new_Set (compromise_terms env text2);
          intersection = new_Set (filter (\<lambda>term. term \<in> set terms2) terms1);
          union = new_Set (terms1 @ terms2)
      in if length union = 0 then None
         else Some (real (length intersection) / real (length union)))"

definition calculateAnswerRelevance :: "services \<Rightarrow> jsstring \<Rightarrow> jsstring \<Rightarrow> real option" where
  "calculateAnswerRelevance env question answer = calculateSemanticSimilarity env question answer"

text \<open>A comparison \<open>x > c\<close> is false when \<open>x\<close> is \<open>NaN\<close>.\<close>

fun js_gt :: "real option \<Rightarrow> real \<Rightarrow> bool" where
  "js_gt None c = False"
| "js_gt (Some x) c = (x > c)"

definition calculateContextPrecision :: "services \<Rightarrow> chunk list \<Rightarrow> chunk list \<Rightarrow> real" where
  "calculateContextPrecision env retrievedChunks relevantChunks =
     (if length retrievedChunks = 0 then 0
      else real (length (filter (\<lambda>chunk.
                  list_ex (\<lambda>rel. js_gt (calculateSemanticSimilarity env (content chunk) (content rel))
                                    (5 / 10))
                    relevantChunks) retrievedChunks))
           / real (length retrievedChunks))"

definition calculateFaithfulness :: "services \<Rightarrow> jsstring \<Rightarrow> jsstring \<Rightarrow> js_error + real" where
  "calculateFaithfulness env answer context =
     (case SentenceTokenizer_tokenize env answer of
        Inl e \<Rightarrow> Inl e
      | Inr answerSentences \<Rightarrow>
          if length answerSentences = 0 then Inr 1
          else Inr (real (length (filter (\<lambda>sentence.
                        js_gt (calculateSemanticSimilarity env sentence context) (3 / 10))
                      answerSentences))
                    / real (length answerSentences)))"

record evaluation =
  answerRelevance :: "real option"
  contextPrecision :: real
  faithfulness :: real

text \<open>
  \<open>evaluateRAGResponse(question, answer, retrievedChunks, relevantChunks = [])\<close>: an
  omitted fourth argument is \<open>None\<close> and takes the default. The \<open>timestamp\<close> field reads
  the clock and is left out.
\<close>

definition evaluateRAGResponse ::
  "services \<Rightarrow> jsstring \<Rightarrow> jsstring \<Rightarrow> chunk list \<Rightarrow> chunk list option \<Rightarrow> js_error + evaluation" where
  "evaluateRAGResponse env question answer retrievedChunks relevantChunksArg =
     (let relevantChunks = (case relevantChunksArg of None \<Rightarrow> [] | Some rs \<Rightarrow> rs);
          context = join (js ''\<newline>'') (map content retrievedChunks);
          ar = calculateAnswerRelevance env question answer;
          cp = calculateContextPrecision env retrievedChunks relevantChunks
      in case calculateFaithfulness env answer context of
           Inl e \<Rightarrow> Inl e
         | Inr f \<Rightarrow> Inr \<lparr>answerRelevance = ar, contextPrecision = cp, faithfulness = f\<rparr>)"

section \<open>Scoring: cosine similarity and BM25\<close>

text \<open>
  \<open>cosineSimilarity(vec1, vec2)\<close>, in double arithmetic. An argument that is \<open>null\<close> or
  \<open>undefined\<close> is \<open>None\<close>; an array, also the empty one, is truthy. The library call
  sits in a \<open>try\<close> block whose handler computes the similarity by hand. Inside the
  handler every index \<open>i\<close> of \<open>vec1\<close> is an index of \<open>vec2\<close>, because the guard has compared
  the lengths.
\<close>

definition dotProduct :: "double list \<Rightarrow> double list \<Rightarrow> double" where
  "dotProduct vec1 vec2 =
     foldl (\<lambda>sum (val, i). fl_add sum (fl_mul val (vec2 ! i))) (Finite 0)
       (zip vec1 [0..<length vec1])"

definition magnitude :: "double list \<Rightarrow> double" where
  "magnitude vec = fl_sqrt (foldl (\<lambda>sum val. fl_add sum (fl_mul val val)) (Finite 0) vec)"

definition cosineSimilarity ::
  "services \<Rightarrow> double list option \<Rightarrow> double list option \<Rightarrow> js_error + double" where
  "cosineSimilarity env vec1 vec2 =
     (case vec1 of
        None \<Rightarrow> Inr (Finite 0)
      | Some v1 \<Rightarrow>
         (case vec2 of
            None \<Rightarrow> Inr (Finite 0)
          | Some v2 \<Rightarrow>
             if length v1 \<noteq> length v2 then Inr (Finite 0)
             else (case ml_distance_cosine env v1 v2 of
                     Inr d \<Rightarrow> Inr (fl_sub (Finite 1) d)
                   | Inl error \<Rightarrow>
                       let magnitude1 = magnitude v1; magnitude2 = magnitude v2
                       in if magnitude1 = Finite 0 \<or> magnitude2 = Finite 0 then Inr (Finite 0)
                          else Inr (fl_div (dotProduct v1 v2) (fl_mul magnitude1 magnitude2)))))"

text \<open>
  \<open>calculateBM25Score(query, document, corpus)\<close>. The model below computes the score
  over the real numbers; the statements about its sign are made there. The same
  computation in doubles, as the ranking adds it to the similarity, follows it.
\<close>

text \<open>\<open>String.prototype.includes\<close>: the term occurs as a contiguous substring.\<close>

fun starts_with :: "'a list \<Rightarrow> 'a list \<Rightarrow> bool" where
  "starts_with s [] = True"
| "starts_with [] (t # ts) = False"
| "starts_with (c # s) (t # ts) = (c = t \<and> starts_with s ts)"

fun str_includes :: "'a list \<Rightarrow> 'a list \<Rightarrow> bool" where
  "str_includes [] term = (term = [])"
| "str_includes (c # s) term = (starts_with (c # s) term \<or> str_includes s term)"

definition bm25_k1 :: real where "bm25_k1 = 12 / 10"

definition bm25_b :: real where "bm25_b = 75 / 100"

definition avgDocLength :: "jsstring list \<Rightarrow> real" where
  "avgDocLength corpus =
     foldl (\<lambda>sum doc. sum + real (length doc)) 0 corpus / real (length corpus)"

definition termFreq :: "jsstring list \<Rightarrow> jsstring \<Rightarrow> nat" where
  "termFreq docTokens term = length (filter (\<lambda>token. token = term) docTokens)"

definition docFreq :: "services \<Rightarrow> jsstring list \<Rightarrow> jsstring \<Rightarrow> nat" where
  "docFreq env corpus term = length (filter (\<lambda>doc. str_includes (toLowerCase env doc) term) corpus)"

definition idf :: "services \<Rightarrow> jsstring list \<Rightarrow> jsstring \<Rightarrow> real" where
  "idf env corpus term =
     ln ((real (length corpus) - real (docFreq env corpus term) + 5 / 10)
         / (real (docFreq env corpus term) + 5 / 10))"

definition tf :: "jsstring list \<Rightarrow> jsstring list \<Rightarrow> jsstring \<Rightarrow> real" where
  "tf docTokens corpus term =
     (real (termFreq docTokens term) * (bm25_k1 + 1))
     / (real (termFreq docTokens term)
        + bm25_k1 * (1 - bm25_b + bm25_b * (real (length docTokens) / avgDocLength corpus)))"

text \<open>The body of the \<open>forEach\<close> over the query tokens, as a step on the running score.\<close>

definition bm25_step :: "services \<Rightarrow> jsstring list \<Rightarrow> jsstring list \<Rightarrow> real \<Rightarrow> jsstring \<Rightarrow> real" where
  "bm25_step env docTokens corpus score term =
     (if docFreq env corpus term > 0
      then score + idf env corpus term * tf docTokens corpus term
      else score)"

definition calculateBM25Score :: "services \<Rightarrow> jsstring \<Rightarrow> jsstring \<Rightarrow> jsstring list \<Rightarrow> real" where
  "calculateBM25Score env query document corpus =
     (let queryTokens = WordTokenizer_tokenize env (toLowerCase env query);
          docTokens = WordTokenizer_tokenize env (toLowerCase env document)
      in foldl (bm25_step env docTokens corpus) 0 queryTokens)"

text \<open>
  The same function in double arithmetic. The counts and lengths are integers that a
  double holds exactly; \<open>1.2\<close>, \<open>0.75\<close> and \<open>0.5\<close> are the doubles nearest to them.
\<close>

definition avgDocLength_double :: "jsstring list \<Rightarrow> double" where
  "avgDocLength_double corpus =
     fl_div (foldl (\<lambda>sum doc. fl_add sum (Finite (real (length doc)))) (Finite 0) corpus)
       (Finite (real (length corpus)))"

definition idf_double :: "services \<Rightarrow> jsstring list \<Rightarrow> jsstring \<Rightarrow> double" where
  "idf_double env corpus term =
     Math_log env
       (fl_div (fl_add (fl_sub (Finite (real (length corpus))) (Finite (real (docFreq env corpus term))))
                  (round64 (5 / 10)))
               (fl_add (Finite (real (docFreq env corpus term))) (round64 (5 / 10))))"

definition tf_double :: "jsstring list \<Rightarrow> jsstring list \<Rightarrow> jsstring \<Rightarrow> double" where
  "tf_double docTokens corpus term =
     fl_div (fl_mul (Finite (real (termFreq docTokens term))) (fl_add (round64 bm25_k1) (Finite 1)))
       (fl_add (Finite (real (termFreq docTokens term)))
          (fl_mul (round64 bm25_k1)
             (fl_add (fl_sub (Finite 1) (round64 bm25_b))
                (fl_mul (round64 bm25_b)
                   (fl_div (Finite (real (length docTokens))) (avgDocLength_double corpus))))))"

definition bm25_step_double ::
  "services \<Rightarrow> jsstring list \<Rightarrow> jsstring list \<Rightarrow> double \<Rightarrow> jsstring \<Rightarrow> double" where
  "bm25_step_double env docTokens corpus score term =
     (if docFreq env corpus term > 0
      then fl_add score (fl_mul (idf_double env corpus term) (tf_double docTokens corpus term))
      else score)"

definition calculateBM25Score_double ::
  "services \<Rightarrow> jsstring \<Rightarrow> jsstring \<Rightarrow> jsstring list \<Rightarrow> double" where
  "calculateBM25Score_double env query document corpus =
     (let queryTokens = WordTokenizer_tokenize env (toLowerCase env query);
          docTokens = WordTokenizer_tokenize env (toLowerCase env document)
      in foldl (bm25_step_double env docTokens corpus) (Finite 0) queryTokens)"

section \<open>Query expansion: \<open>generateMultipleQueries\<close>\<close>

text \<open>
  The code units that \<open>String.prototype.trim\<close> strips and the regular expression class
  \<open>\s\<close> matches: white space and line terminators.
\<close>

definition is_whitespace :: "jschar \<Rightarrow> bool" where
  "is_whitespace c =
     (c \<in> set [0x9, 0xA, 0xB, 0xC, 0xD, 0x20, 0xA0, 0x1680, 0x2028, 0x2029, 0x202F, 0x205F,
                0x3000, 0xFEFF]
      \<or> (0x2000 \<le> c \<and> c \<le> 0x200A))"

definition trim :: "jsstring \<Rightarrow> jsstring" where
  "trim s = rev (dropWhile is_whitespace (rev (dropWhile is_whitespace s)))"

definition is_digit :: "jschar \<Rightarrow> bool" where
  "is_digit c = (0x30 \<le> c \<and> c \<le> 0x39)"

text \<open>\<open>String.prototype.split\<close> with a separator of one code unit.\<close>

fun split_on :: "jschar \<Rightarrow> jsstring \<Rightarrow> jsstring list" where
  "split_on sep [] = [[]]"
| "split_on sep (c # s) =
     (if c = sep then [] # split_on sep s
      else (case split_on sep s of
              [] \<Rightarrow> [[c]]
            | piece # pieces \<Rightarrow> (c # piece) # pieces))"

text \<open>
  \<open>line.replace(/^\d+\.\s*/, '')\<close>: a leading run of at least one digit, followed by a
  full stop and any white space, is removed; a line that does not start so is kept.
\<close>

definition strip_enumeration :: "jsstring \<Rightarrow> jsstring" where
  "strip_enumeration line =
     (case dropWhile is_digit line of
        [] \<Rightarrow> line
      | c # rest \<Rightarrow>
          if takeWhile is_digit line \<noteq> [] \<and> c = 0x2E then dropWhile is_whitespace rest
          else line)"

text \<open>The decimal digits of a number, as \<open>${numQueries}\<close> writes an integer.\<close>

function decimal :: "nat \<Rightarrow> jsstring" where
  "decimal n = (if n < 10 then [of_nat (48 + n)]
                else decimal (n div 10) @ [of_nat (48 + n mod 10)])"
  by pat_completeness auto
termination
  by (relation "measure id") auto

declare decimal.simps [simp del]

definition number_to_string :: "int \<Rightarrow> jsstring" where
  "number_to_string n = (if n < 0 then 0x2D # decimal (nat (- n)) else decimal (nat n))"

definition expansion_prompt :: "jsstring \<Rightarrow> int \<Rightarrow> jsstring" where
  "expansion_prompt originalQuery numQueries =
     js ''Generate '' @ number_to_string numQueries
     @ js '' different ways to ask the following question. Each query should capture different aspects or perspectives of the original question:\<newline>\<newline>Original Question: ''
     @ [0x22] @ originalQuery @ [0x22]
     @ js ''\<newline>\<newline>Please provide '' @ number_to_string numQueries
     @ js '' alternative queries, each on a new line:''"

definition parse_queries :: "jsstring \<Rightarrow> int \<Rightarrow> jsstring list" where
  "parse_queries generatedText numQueries =
     slice0 numQueries
       (map (\<lambda>line. trim (strip_enumeration line))
          (filter (\<lambda>line. trim line \<noteq> []) (split_on 0xA generatedText)))"

text \<open>
  The whole body is a \<open>try\<close> block: a throw of the generation call, or of reading the
  text of its response, is logged and answered with the original query alone.
\<close>

definition generateMultipleQueries :: "services \<Rightarrow> jsstring \<Rightarrow> int \<Rightarrow> js_error + jsstring list" where
  "generateMultipleQueries env originalQuery numQueries =
     (case generateContent env (expansion_prompt originalQuery numQueries) of
        Inl error \<Rightarrow> Inr [originalQuery]
      | Inr response \<Rightarrow>
          (case response_text response of
             Inl error \<Rightarrow> Inr [originalQuery]
           | Inr generatedText \<Rightarrow> Inr (originalQuery # parse_queries generatedText numQueries)))"

section \<open>Hybrid retrieval and ranking\<close>

record scored =
  chunk :: chunk
  vectorScore :: double
  bm25Score :: double
  hybridScore :: double
  queryVariation :: jsstring

text \<open>
  The body of the inner loop: one candidate per (variation, chunk) pair. The blend
  \<open>0.7 * vectorScore + 0.3 * bm25Score\<close> is computed in doubles, its two constants being
  the doubles nearest to 0.7 and 0.3.
\<close>

definition score_chunk ::
  "services \<Rightarrow> jsstring \<Rightarrow> double list \<Rightarrow> jsstring list \<Rightarrow> chunk \<Rightarrow> js_error + scored" where
  "score_chunk env variation queryVector corpus c =
     (case cosineSimilarity env (Some queryVector) (embedding c) of
        Inl e \<Rightarrow> Inl e
      | Inr vs \<Rightarrow>
          let bs = calculateBM25Score_double env variation (content c) corpus
          in Inr \<lparr>chunk = c, vectorScore = vs, bm25Score = bs,
                  hybridScore = fl_add (fl_mul (round64 (7 / 10)) vs)
                                       (fl_mul (round64 (3 / 10)) bs),
                  queryVariation = variation\<rparr>)"

fun score_chunks ::
  "services \<Rightarrow> jsstring \<Rightarrow> double list \<Rightarrow> jsstring list \<Rightarrow> chunk list \<Rightarrow> scored list
     \<Rightarrow> js_error + scored list" where
  "score_chunks env variation queryVector corpus [] hybridResults = Inr hybridResults"
| "score_chunks env variation queryVector corpus (c # cs) hybridResults =
     (case score_chunk env variation queryVector corpus c of
        Inl e \<Rightarrow> Inl e
      | Inr r \<Rightarrow> score_chunks env variation queryVector corpus cs (hybridResults @ [r]))"

text \<open>
  The outer loop over the query variations. The embedding of a variation is requested
  first; a throw of the embedding service leaves the loop.
\<close>

fun score_variations ::
  "services \<Rightarrow> chunk list \<Rightarrow> jsstring list \<Rightarrow> scored list \<Rightarrow> js_error + scored list" where
  "score_variations env allChunks [] hybridResults = Inr hybridResults"
| "score_variations env allChunks (variation # variations) hybridResults =
     (case embedContent env variation of
        Inl e \<Rightarrow> Inl e
      | Inr queryVector \<Rightarrow>
          (case score_chunks env variation queryVector (map content allChunks) allChunks
                  hybridResults of
             Inl e \<Rightarrow> Inl e
           | Inr hybridResults' \<Rightarrow> score_variations env allChunks variations hybridResults'))"

text \<open>
  A \<open>Map\<close> is a list of entries in insertion order; \<open>set\<close> on a key that is present
  replaces the value in place.
\<close>

fun Map_set :: "'k \<Rightarrow> 'v \<Rightarrow> ('k \<times> 'v) list \<Rightarrow> ('k \<times> 'v) list" where
  "Map_set k v [] = [(k, v)]"
| "Map_set k v ((k', v') # m) = (if k' = k then (k, v) # m else (k', v') # Map_set k v m)"

definition Map_get :: "('k \<times> 'v) list \<Rightarrow> 'k \<Rightarrow> 'v option" where
  "Map_get m k = map_of m k"

definition Map_values :: "('k \<times> 'v) list \<Rightarrow> 'v list" where
  "Map_values m = map snd m"

text \<open>The body of \<open>hybridResults.forEach\<close>, as a step on the map \<open>uniqueResults\<close>.\<close>

definition unique_step :: "(jsstring \<times> scored) list \<Rightarrow> scored \<Rightarrow> (jsstring \<times> scored) list" where
  "unique_step uniqueResults result =
     (let key = chunk_id (chunk result)
      in case Map_get uniqueResults key of
           None \<Rightarrow> Map_set key result uniqueResults
         | Some kept \<Rightarrow>
             if js_lt (hybridScore kept) (hybridScore result)
             then Map_set key result uniqueResults
             else uniqueResults)"

text \<open>
  \<open>Array.prototype.sort\<close> with a comparator is a stable sort: an element goes behind
  the elements it compares greater than (the comparator's value is positive), and
  before the first element it does not; a comparator value of \<open>NaN\<close> counts as zero. For
  a comparator that orders the elements consistently, as the difference of two scores
  that are numbers does, every stable sort gives this result.
\<close>

fun insert_by :: "('a \<Rightarrow> 'a \<Rightarrow> double) \<Rightarrow> 'a \<Rightarrow> 'a list \<Rightarrow> 'a list" where
  "insert_by cmp x [] = [x]"
| "insert_by cmp x (y # ys) =
     (if js_lt (Finite 0) (cmp x y) then y # insert_by cmp x ys else x # y # ys)"

definition sort_by :: "('a \<Rightarrow> 'a \<Rightarrow> double) \<Rightarrow> 'a list \<Rightarrow> 'a list" where
  "sort_by cmp xs = foldr (insert_by cmp) xs []"

definition topResults :: "int \<Rightarrow> scored list \<Rightarrow> scored list" where
  "topResults maxResults hybridResults =
     slice0 maxResults
       (sort_by (\<lambda>a b. fl_sub (hybridScore b) (hybridScore a))
          (Map_values (foldl unique_step [] hybridResults)))"

text \<open>The retrieval step of the query operation, from the variations to the ranked list.\<close>

definition hybrid_retrieval ::
  "services \<Rightarrow> chunk list \<Rightarrow> jsstring list \<Rightarrow> int \<Rightarrow> js_error + scored list" where
  "hybrid_retrieval env allChunks variations maxResults =
     (case score_variations env allChunks variations [] of
        Inl e \<Rightarrow> Inl e
      | Inr hybridResults \<Rightarrow> Inr (topResults maxResults hybridResults))"

text \<open>
  The invariant of the deduplication loop, for the results \<open>seen\<close> so far: the keys are
  distinct, every entry is a seen result stored under its own chunk id, and every seen
  result has an entry under its chunk id whose score is at least its own.
\<close>

definition unique_inv :: "scored list \<Rightarrow> (jsstring \<times> scored) list \<Rightarrow> bool" where
  "unique_inv seen m \<longleftrightarrow>
     distinct (map fst m)
     \<and> (\<forall>k kept. (k, kept) \<in> set m \<longrightarrow> chunk_id (chunk kept) = k \<and> kept \<in> set seen)
     \<and> (\<forall>x \<in> set seen. \<exists>kept. (chunk_id (chunk x), kept) \<in> set m \<and> js_le (hybridScore x) (hybridScore kept))"

section \<open>Requests and the cache key\<close>

text \<open>
  The validated request. \<open>querySchema\<close> requires a question of 3 to 500 code units,
  gives \<open>includeMetadata\<close> the default \<open>false\<close> and \<open>maxResults\<close>, an integer from 1 to 20,
  the default 5. The body of a request has each field present or absent.
\<close>

record request =
  req_question :: jsstring
  req_includeMetadata :: bool
  req_maxResults :: int

record request_body =
  body_question :: "jsstring option"
  body_includeMetadata :: "bool option"
  body_maxResults :: "int option"

datatype validation_error =
  Question_required | Question_empty | Question_too_short | Question_too_long
  | MaxResults_too_small | MaxResults_too_large

definition validate :: "request_body \<Rightarrow> validation_error + request" where
  "validate body =
     (case body_question body of
        None \<Rightarrow> Inl Question_required
      | Some q \<Rightarrow>
          if q = [] then Inl Question_empty
          else if length q < 3 then Inl Question_too_short
          else if length q > 500 then Inl Question_too_long
          else let m = (case body_maxResults body of None \<Rightarrow> 5 | Some m \<Rightarrow> m);
                   i = (case body_includeMetadata body of None \<Rightarrow> False | Some i \<Rightarrow> i)
               in if m < 1 then Inl MaxResults_too_small
                  else if m > 20 then Inl MaxResults_too_large
                  else Inr \<lparr>req_question = q, req_includeMetadata = i, req_maxResults = m\<rparr>)"

text \<open>
  \<open>Buffer.from(question)\<close> encodes the string in UTF-8: a high surrogate followed by a
  low surrogate is one code point of four bytes, and a surrogate without its partner
  is replaced by U+FFFD.
\<close>

type_synonym byte = "8 word"

definition utf8_code_point :: "nat \<Rightarrow> byte list" where
  "utf8_code_point cp =
     (if cp < 0x80 then [of_nat cp]
      else if cp < 0x800 then [of_nat (0xC0 + cp div 64), of_nat (0x80 + cp mod 64)]
      else if cp < 0x10000
      then [of_nat (0xE0 + cp div 4096), of_nat (0x80 + (cp div 64) mod 64),
            of_nat (0x80 + cp mod 64)]
      else [of_nat (0xF0 + cp div 262144), of_nat (0x80 + (cp div 4096) mod 64),
            of_nat (0x80 + (cp div 64) mod 64), of_nat (0x80 + cp mod 64)])"

definition is_high_surrogate :: "jschar \<Rightarrow> bool" where
  "is_high_surrogate c = (0xD800 \<le> c \<and> c \<le> 0xDBFF)"

definition is_low_surrogate :: "jschar \<Rightarrow> bool" where
  "is_low_surrogate c = (0xDC00 \<le> c \<and> c \<le> 0xDFFF)"

definition scalar_value :: "jschar \<Rightarrow> nat" where
  "scalar_value c = (if is_high_surrogate c \<or> is_low_surrogate c then 0xFFFD else unat c)"

definition pair_value :: "jschar \<Rightarrow> jschar \<Rightarrow> nat" where
  "pair_value c d = 0x10000 + (unat c - 0xD800) * 1024 + (unat d - 0xDC00)"

fun code_points :: "jsstring \<Rightarrow> nat list" where
  "code_points [] = []"
| "code_points [c] = [scalar_value c]"
| "code_points (c # d # s) =
     (if is_high_surrogate c \<and> is_low_surrogate d then pair_value c d # code_points s
      else scalar_value c # code_points (d # s))"

definition utf8_encode :: "jsstring \<Rightarrow> byte list" where
  "utf8_encode s = concat (map utf8_code_point (code_points s))"

text \<open>A string is well-formed when it has no surrogate without its partner.\<close>

fun well_formed :: "jsstring \<Rightarrow> bool" where
  "well_formed [] = True"
| "well_formed [c] = (\<not> is_high_surrogate c \<and> \<not> is_low_surrogate c)"
| "well_formed (c # d # s) =
     (if is_high_surrogate c \<and> is_low_surrogate d then well_formed s
      else \<not> is_high_surrogate c \<and> \<not> is_low_surrogate c \<and> well_formed (d # s))"

text \<open>\<open>toString('base64')\<close>: the standard alphabet, padded with \<open>=\<close>.\<close>

definition base64_alphabet :: jsstring where
  "base64_alphabet = js ''ABCDEFGHIJKLMNOPQRSTUVWXYZabcdefghijklmnopqrstuvwxyz0123456789+/''"

definition base64_char :: "nat \<Rightarrow> jschar" where
  "base64_char i = base64_alphabet ! i"

fun base64 :: "byte list \<Rightarrow> jsstring" where
  "base64 [] = []"
| "base64 [x] =
     [base64_char (unat x div 4), base64_char ((unat x mod 4) * 16), 0x3D, 0x3D]"
| "base64 [x, y] =
     [base64_char (unat x div 4), base64_char ((unat x mod 4) * 16 + unat y div 16),
      base64_char ((unat y mod 16) * 4), 0x3D]"
| "base64 (x # y # z # rest) =
     [base64_char (unat x div 4), base64_char ((unat x mod 4) * 16 + unat y div 16),
      base64_char ((unat y mod 16) * 4 + unat z div 64), base64_char (unat z mod 64)]
     @ base64 rest"

text \<open>The key under which the query operation looks its result up and stores it.\<close>

definition cacheKey :: "request \<Rightarrow> jsstring" where
  "cacheKey req = js ''query_'' @ base64 (utf8_encode (req_question req))"

section \<open>The query operation: \<open>app.post('/query')\<close>\<close>

text \<open>
  The JSON body of a successful response. A field that a response does not carry is
  \<open>None\<close>; \<open>cached\<close> is present, and true, only in a response served from the cache.
  The fields \<open>responseTime\<close> and \<open>timestamp\<close> read the clock and are left out.
\<close>

record source =
  src_content :: jsstring
  src_vectorScore :: double
  src_bm25Score :: double
  src_hybridScore :: double
  src_docId :: jsstring
  src_chunkIndex :: int
  src_metadata :: "chunk option"

record query_result =
  res_answer :: jsstring
  res_sources :: "source list"
  res_queryVariations :: "jsstring list"
  res_retrievalMethod :: "jsstring option"
  res_evaluation :: "evaluation option"
  res_cached :: bool

datatype http_response =
  Json query_result
  | Bad_request validation_error
  | Server_error jsstring

text \<open>
  The state of the process: the entries of the cache that have not expired, and the
  metrics. The outcome of a request is the response, the new state, and the prompts
  that were sent to the generation service, in order.
\<close>

record server_state =
  st_cache :: "jsstring \<rightharpoonup> query_result"
  st_metrics :: metrics

record outcome =
  out_response :: http_response
  out_state :: server_state
  out_generation_calls :: "jsstring list"

definition to_source :: "bool \<Rightarrow> scored \<Rightarrow> source" where
  "to_source withMetadata item =
     \<lparr>src_content = substring0 200 (content (chunk item)) @ js ''...'',
      src_vectorScore = vectorScore item,
      src_bm25Score = bm25Score item,
      src_hybridScore = hybridScore item,
      src_docId = docId (chunk item),
      src_chunkIndex = chunkIndex (chunk item),
      src_metadata = (if withMetadata then Some (chunk item) else None)\<rparr>"

definition answer_prompt :: "jsstring \<Rightarrow> jsstring \<Rightarrow> jsstring" where
  "answer_prompt context q =
     js ''Context: '' @ context @ js ''\<newline>\<newline>Question: '' @ q
     @ js ''\<newline>\<newline>Please provide a comprehensive answer based on the context above. If the context doesn''
     @ [0x27]
     @ js ''t contain enough information to answer the question, please say so.''"

text \<open>
  The text of the generated answer: \<open>response.text()\<close>, and when that throws, the text
  of the first part of the first candidate, which may throw in turn.
\<close>

definition generated_text :: "gen_response \<Rightarrow> js_error + jsstring" where
  "generated_text response =
     (case response_text response of
        Inr t \<Rightarrow> Inr t
      | Inl textError \<Rightarrow> candidate_text response)"

definition no_documents :: "jsstring list \<Rightarrow> query_result" where
  "no_documents variations =
     \<lparr>res_answer = js ''No documents have been uploaded yet. Please upload a PDF first.'',
      res_sources = [],
      res_queryVariations = variations,
      res_retrievalMethod = None,
      res_evaluation = None,
      res_cached = False\<rparr>"

text \<open>
  The handler of the outer \<open>catch\<close>: the failure is recorded in the metrics and answered
  with status 500.
\<close>

definition server_error :: "server_state \<Rightarrow> real \<Rightarrow> bool \<Rightarrow> jsstring list \<Rightarrow> js_error \<Rightarrow> outcome" where
  "server_error st rt cacheHit calls err =
     \<lparr>out_response = Server_error (message err),
      out_state = st\<lparr>st_metrics := recordQuery rt cacheHit True (st_metrics st)\<rparr>,
      out_generation_calls = calls\<rparr>"

text \<open>
  The last stage of the query operation, once the ranked list \<open>ranked\<close> is there: the answer
  is generated and evaluated, and the result is cached, recorded and returned. \<open>rt\<close> is
  the elapsed time that the clock gives when it is read.
\<close>

definition generate_answer ::
  "services \<Rightarrow> real \<Rightarrow> server_state \<Rightarrow> request \<Rightarrow> jsstring list \<Rightarrow> jsstring list \<Rightarrow> scored list
     \<Rightarrow> outcome" where
  "generate_answer env rt st req variations calls1 ranked =
     (let prompt = answer_prompt
                     (join (js ''\<newline>\<newline>'') (map (\<lambda>item. content (chunk item)) ranked))
                     (req_question req);
          calls2 = calls1 @ [prompt]
      in case generateContent env prompt of
           Inl err \<Rightarrow> server_error st rt False calls2 err
         | Inr response \<Rightarrow>
            (case generated_text response of
               Inl err \<Rightarrow> server_error st rt False calls2 err
             | Inr generatedText \<Rightarrow>
                (case evaluateRAGResponse env (req_question req) generatedText
                        (map chunk ranked) None of
                   Inl err \<Rightarrow> server_error st rt False calls2 err
                 | Inr ev \<Rightarrow>
                    (let finalResult =
                           \<lparr>res_answer = generatedText,
                            res_sources = map (to_source (req_includeMetadata req)) ranked,
                            res_queryVariations = variations,
                            res_retrievalMethod = Some (js ''hybrid''),
                            res_evaluation = Some ev,
                            res_cached = False\<rparr>
                     in \<lparr>out_response = Json finalResult,
                         out_state =
                           \<lparr>st_cache = (st_cache st)(cacheKey req \<mapsto> finalResult),
                            st_metrics = recordQuery rt False False (st_metrics st)\<rparr>,
                         out_generation_calls = calls2\<rparr>))))"

text \<open>
  The query operation after a cache miss. The variations are generated first; then
  \<open>stored\<close>, what the corpus store answers to the one query for all chunks that have an
  embedding (the query may throw), is examined.
\<close>

definition answer_uncached ::
  "services \<Rightarrow> js_error + chunk list \<Rightarrow> real \<Rightarrow> server_state \<Rightarrow> request \<Rightarrow> outcome" where
  "answer_uncached env stored rt st req =
     (let calls1 = [expansion_prompt (req_question req) 3]
      in case generateMultipleQueries env (req_question req) 3 of
           Inl err \<Rightarrow> server_error st rt False calls1 err
         | Inr variations \<Rightarrow>
            (case stored of
               Inl err \<Rightarrow> server_error st rt False calls1 err
             | Inr allChunks \<Rightarrow>
                if length allChunks = 0
                then \<lparr>out_response = Json (no_documents variations), out_state = st,
                      out_generation_calls = calls1\<rparr>
                else (case hybrid_retrieval env allChunks variations (req_maxResults req) of
                        Inl err \<Rightarrow> server_error st rt False calls1 err
                      | Inr ranked \<Rightarrow> generate_answer env rt st req variations calls1 ranked)))"

text \<open>The query operation: validation, then the cache, then the work.\<close>

definition post_query ::
  "services \<Rightarrow> js_error + chunk list \<Rightarrow> real \<Rightarrow> server_state \<Rightarrow> request_body \<Rightarrow> outcome" where
  "post_query env stored rt st body =
     (case validate body of
        Inl invalid \<Rightarrow>
          \<lparr>out_response = Bad_request invalid, out_state = st, out_generation_calls = []\<rparr>
      | Inr req \<Rightarrow>
         (case st_cache st (cacheKey req) of
            Some cachedResult \<Rightarrow>
              \<lparr>out_response = Json (cachedResult\<lparr>res_cached := True\<rparr>),
               out_state = st\<lparr>st_metrics := recordQuery rt True False (st_metrics st)\<rparr>,
               out_generation_calls = []\<rparr>
          | None \<Rightarrow> answer_uncached env stored rt st req))"

section \<open>Concrete collaborators for evaluation on examples\<close>

text \<open>
  Simple stand-ins for the library functions, used only to run the model on concrete
  inputs: maximal runs of characters satisfying a predicate serve as tokens, and the
  logarithm is the correctly rounded one.
\<close>

fun runs :: "('a \<Rightarrow> bool) \<Rightarrow> 'a list \<Rightarrow> 'a list \<Rightarrow> 'a list list" where
  "runs p cur [] = (if cur = [] then [] else [cur])"
| "runs p cur (x # xs) =
     (if p x then runs p (cur @ [x]) xs
      else (if cur = [] then [] else [cur]) @ runs p [] xs)"

definition is_word_char :: "jschar \<Rightarrow> bool" where
  "is_word_char c = ((48 \<le> c \<and> c \<le> 57) \<or> (65 \<le> c \<and> c \<le> 90) \<or> c = 95 \<or> (97 \<le> c \<and> c \<le> 122))"

definition ascii_lower :: "jsstring \<Rightarrow> jsstring" where
  "ascii_lower s = map (\<lambda>c. if 65 \<le> c \<and> c \<le> 90 then c + 32 else c) s"

fun fl_log :: "double \<Rightarrow> double" where
  "fl_log (Finite x) = (if x < 0 then NaN else if x = 0 then MinusInfinity else round64 (ln x))"
| "fl_log PlusInfinity = PlusInfinity"
| "fl_log _ = NaN"

definition sample_services :: services where
  "sample_services =
     \<lparr>toLowerCase = ascii_lower,
      WordTokenizer_tokenize = runs is_word_char [],
      SentenceTokenizer_tokenize = (\<lambda>s. Inr (runs (\<lambda>c. c \<noteq> 46) [] s)),
      compromise_terms = runs (\<lambda>c. c \<noteq> 32) [],
      ml_distance_cosine = (\<lambda>a b. Inl (Error (js ''cosine is not a function''))),
      generateContent = (\<lambda>prompt. Inl (Error (js ''service unavailable''))),
      embedContent = (\<lambda>text. Inr [Finite 1, Finite 0]),
      Math_log = fl_log\<rparr>"

definition sample_chunk :: "string \<Rightarrow> string \<Rightarrow> real list \<Rightarrow> chunk" where
  "sample_chunk i c e =
     \<lparr>chunk_id = js i, content = js c, embedding = Some (map Finite e), docId = js ''doc_1'', chunkIndex = 0\<rparr>"

definition sample_body :: request_body where
  "sample_body = \<lparr>body_question = Some (js ''What is a cat?''), body_includeMetadata = None,
                   body_maxResults = None\<rparr>"

definition sample_request :: request where
  "sample_request = \<lparr>req_question = js ''What is a cat?'', req_includeMetadata = False,
                      req_maxResults = 5\<rparr>"

definition sample_cached :: query_result where
  "sample_cached =
     \<lparr>res_answer = js ''A cat is a pet.'',
      res_sources = [to_source False
         \<lparr>chunk = sample_chunk ''doc_1_chunk_0'' ''a cat is a pet'' [1, 0], vectorScore = Finite 1,
          bm25Score = Finite 0, hybridScore = round64 (7 / 10), queryVariation = js ''What is a cat?''\<rparr>],
      res_queryVariations = [js ''What is a cat?''],
      res_retrievalMethod = Some (js ''hybrid''),
      res_evaluation = None,
      res_cached = False\<rparr>"

text \<open>
  A number whose square is beyond the largest double, and an embedding service that
  answers one text with a vector of that size.
\<close>

definition huge :: real where
  "huge = 2 ^ 600"

definition overflow_services :: services where
  "overflow_services =
     sample_services\<lparr>embedContent :=
       (\<lambda>text. if text = js ''cat'' then Inr [Finite huge, Finite 0] else Inr [Finite 1, Finite 0])\<rparr>"

section \<open>Properties of double arithmetic\<close>

lemma exponent64_normal:
  assumes "2 powi e \<le> \<bar>x\<bar>" "\<bar>x\<bar> < 2 powi (e + 1)" "- 1022 \<le> e"
  shows "exponent64 x = e"
proof -
  have "(0::real) < 2 powi e" by simp
  with assms(1) have pos: "0 < \<bar>x\<bar>" by linarith
  have "(2::real) powr (real_of_int e) = 2 powi e" "(2::real) powr (real_of_int e + 1) = 2 powi (e + 1)"
    using powr_real_of_int'[of "2::real" e] powr_real_of_int'[of "2::real" "e + 1"] by simp_all
  then have "\<lfloor>log 2 \<bar>x\<bar>\<rfloor> = e"
    using assms(1,2) pos by (simp add: floor_log_eq_powr_iff)
  with assms(3) show ?thesis by (simp add: exponent64_def)
qed

lemma round64_normal:
  assumes "2 powi e \<le> \<bar>x\<bar>" "\<bar>x\<bar> < 2 powi (e + 1)" "- 1022 \<le> e"
    and "round_half_even (x / 2 powi (e - 52)) = n"
    and "\<bar>of_int n * 2 powi (e - 52)\<bar> < (2::real) ^ 1024"
  shows "round64 x = Finite (of_int n * 2 powi (e - 52))"
proof -
  have "(0::real) < 2 powi e" by simp
  with assms(1) have "0 < \<bar>x\<bar>" by linarith
  then have "x \<noteq> 0" by simp
  with exponent64_normal[OF assms(1-3)] assms(4,5) show ?thesis
    by (simp add: round64_def Let_def)
qed

lemma round_half_even_eval:
  assumes "of_int f \<le> q" "q < of_int f + 1"
  shows "q - of_int f < 1 / 2 \<Longrightarrow> round_half_even q = f"
    and "q - of_int f > 1 / 2 \<Longrightarrow> round_half_even q = f + 1"
proof -
  have "\<lfloor>q\<rfloor> = f" using assms by linarith
  then show "q - of_int f < 1 / 2 \<Longrightarrow> round_half_even q = f"
    "q - of_int f > 1 / 2 \<Longrightarrow> round_half_even q = f + 1"
    by (simp_all add: round_half_even_def Let_def)
qed

lemma round_half_even_int: "round_half_even (of_int n) = n"
  by (simp add: round_half_even_def)

lemma round64_exact:
  assumes "2 powi e \<le> \<bar>x\<bar>" "\<bar>x\<bar> < 2 powi (e + 1)" "- 1022 \<le> e" "e \<le> 1023"
    and "x / 2 powi (e - 52) = of_int n"
  shows "round64 x = Finite x"
proof -
  have u: "(2::real) powi (e - 52) \<noteq> 0" by simp
  from assms(5) have x: "of_int n * 2 powi (e - 52) = x" by (simp add: field_simps)
  have "(2::real) powi (e + 1) \<le> 2 powi 1024"
    using assms(4) by (intro power_int_increasing) simp_all
  with assms(2) have "\<bar>x\<bar> < 2 ^ 1024" by simp
  with round64_normal[OF assms(1-3), of n] assms(5) x show ?thesis
    by (simp add: round_half_even_int)
qed

lemma round64_1: "round64 1 = Finite 1"
  by (rule round64_exact[where e = 0 and n = "2 ^ 52"]) (simp_all add: power_int_minus)




lemma round64_0: "round64 0 = Finite 0"
  by (simp add: round64_def)

lemma round_half_even_ge_1: "1 \<le> q \<Longrightarrow> 1 \<le> round_half_even q"
proof -
  assume "1 \<le> q"
  then have "1 \<le> \<lfloor>q\<rfloor>" by linarith
  then show ?thesis by (simp add: round_half_even_def Let_def)
qed

lemma round_half_even_le_minus_1: "q \<le> - 1 \<Longrightarrow> round_half_even q \<le> - 1"
proof -
  assume q: "q \<le> - 1"
  then have f: "\<lfloor>q\<rfloor> \<le> - 1" by linarith
  have "\<lfloor>q\<rfloor> + 1 \<le> - 1" if "q - of_int \<lfloor>q\<rfloor> \<ge> 1 / 2"
  proof -
    from that q have "of_int \<lfloor>q\<rfloor> \<le> (- 3 / 2 :: real)" by linarith
    then have "\<lfloor>q\<rfloor> < - 1" by linarith
    then show ?thesis by simp
  qed
  with f show ?thesis by (auto simp: round_half_even_def Let_def not_less)
qed

lemma scaled_magnitude_ge_1:
  assumes "representable d" "d \<noteq> 0"
  shows "1 \<le> \<bar>d\<bar> / 2 powi (exponent64 d - 52)"
proof (cases "- 1022 \<le> \<lfloor>log 2 \<bar>d\<bar>\<rfloor>")
  case True
  let ?e = "\<lfloor>log 2 \<bar>d\<bar>\<rfloor>"
  from True have e: "exponent64 d = ?e" by (simp add: exponent64_def)
  have "0 < \<bar>d\<bar>" using assms(2) by simp
  then have "2 powr (of_int ?e) \<le> \<bar>d\<bar>"
    using floor_log_eq_powr_iff[of "\<bar>d\<bar>" 2 ?e] by simp
  then have "2 powi ?e \<le> \<bar>d\<bar>" by (simp add: powr_real_of_int')
  moreover have "(2::real) powi ?e = 2 powi (?e - 52) * 2 ^ 52"
    by (simp add: power_int_diff)
  ultimately have "2 powi (?e - 52) * 2 ^ 52 \<le> \<bar>d\<bar>" by simp
  then have "2 ^ 52 \<le> \<bar>d\<bar> / 2 powi (?e - 52)"
    by (simp add: pos_le_divide_eq mult.commute)
  moreover have "(1::real) \<le> 2 ^ 52" by simp
  ultimately show ?thesis unfolding e by linarith
next
  case False
  then have e: "exponent64 d = - 1022" by (simp add: exponent64_def)
  from assms(1) obtain j :: int where j: "d = of_int j * 2 powi (- 1074)"
    unfolding representable_def by blast
  with assms(2) have "j \<noteq> 0" by auto
  then have "1 \<le> \<bar>real_of_int j\<bar>" by linarith
  moreover have "\<bar>d\<bar> / 2 powi (- 1022 - 52) = \<bar>real_of_int j\<bar>"
    unfolding j by (simp add: abs_mult)
  ultimately show ?thesis unfolding e by simp
qed

lemma round64_positive:
  assumes "representable d" "0 < d"
  shows "round64 d = PlusInfinity \<or> (\<exists>y. round64 d = Finite y \<and> 0 < y)"
proof -
  let ?u = "(2::real) powi (exponent64 d - 52)"
  have u: "0 < ?u" by simp
  from scaled_magnitude_ge_1[OF assms(1)] assms(2) have "1 \<le> d / ?u" by simp
  then have "1 \<le> round_half_even (d / ?u)" by (rule round_half_even_ge_1)
  then have "0 < of_int (round_half_even (d / ?u)) * ?u" using u by simp
  with assms(2) show ?thesis by (auto simp: round64_def Let_def)
qed

lemma round64_negative:
  assumes "representable d" "d < 0"
  shows "round64 d = MinusInfinity \<or> (\<exists>y. round64 d = Finite y \<and> y < 0)"
proof -
  let ?u = "(2::real) powi (exponent64 d - 52)"
  have u: "0 < ?u" by simp
  from scaled_magnitude_ge_1[OF assms(1)] assms(2) have "1 \<le> (- d) / ?u" by simp
  then have "d / ?u \<le> - 1" by simp
  then have "round_half_even (d / ?u) \<le> - 1" by (rule round_half_even_le_minus_1)
  then have "of_int (round_half_even (d / ?u)) * ?u < 0" using u by (simp add: mult_less_0_iff)
  with assms(2) show ?thesis by (auto simp: round64_def Let_def)
qed

lemma representable_round64:
  assumes "round64 x = Finite y"
  shows "representable y"
proof (cases "x = 0")
  case True
  with assms have "y = 0" by (simp add: round64_def)
  then show ?thesis unfolding representable_def by (intro exI[of _ 0]) simp
next
  case False
  let ?e = "exponent64 x"
  let ?n = "round_half_even (x / 2 powi (?e - 52))"
  from False assms have y: "y = of_int ?n * 2 powi (?e - 52)"
    by (simp add: round64_def Let_def split: if_splits)
  define w :: real where "w = 2 powi (- 1074)"
  have "- 1022 \<le> ?e" by (simp add: exponent64_def)
  then have "?e - 52 = int (nat (?e + 1022)) + (- 1074)" by simp
  then have "(2::real) powi (?e - 52) = 2 ^ nat (?e + 1022) * w"
    unfolding w_def by (metis power_int_add power_int_of_nat zero_neq_numeral)
  with y have "y = of_int (?n * 2 ^ nat (?e + 1022)) * w" by simp
  then show ?thesis unfolding representable_def w_def by blast
qed

lemma representable_diff:
  assumes "representable a" "representable c"
  shows "representable (c - a)"
proof -
  from assms obtain j k :: int where "a = of_int j * 2 powi (- 1074)" "c = of_int k * 2 powi (- 1074)"
    unfolding representable_def by blast
  then have "c - a = of_int (k - j) * 2 powi (- 1074)" by (simp add: algebra_simps)
  then show ?thesis unfolding representable_def by blast
qed

lemma is_number_fl_add: "fl_add a c \<noteq> NaN \<Longrightarrow> is_number (fl_add a c)"
  by (cases a; cases c) (auto simp: is_number_def representable_round64)

lemma comparator_sign:
  assumes "is_number a" "is_number c"
  shows "js_lt (Finite 0) (fl_sub c a) \<longleftrightarrow> js_lt a c"
proof (cases a)
  case a: (Finite x)
  show ?thesis
  proof (cases c)
    case c: (Finite y)
    from assms a c have r: "representable (y - x)"
      by (simp add: is_number_def representable_diff)
    consider "x < y" | "x = y" | "y < x" by linarith
    then show ?thesis
    proof cases
      case 1
      with round64_positive[OF r] a c show ?thesis by (auto simp: fl_sub_def)
    next
      case 2
      with a c show ?thesis by (simp add: fl_sub_def round64_0)
    next
      case 3
      with round64_negative[OF r] a c show ?thesis by (auto simp: fl_sub_def)
    qed
  qed (use a assms in \<open>auto simp: fl_sub_def is_number_def\<close>)
qed (use assms in \<open>cases c; auto simp: fl_sub_def is_number_def\<close>)+

lemma js_le_iff_not_lt: "a \<noteq> NaN \<Longrightarrow> c \<noteq> NaN \<Longrightarrow> js_le a c \<longleftrightarrow> \<not> js_lt c a"
  by (cases a; cases c) auto

lemma js_le_trans: "js_le a c \<Longrightarrow> js_le c d \<Longrightarrow> js_le a d"
  by (cases a; cases c; cases d) auto

lemma js_le_refl: "a \<noteq> NaN \<Longrightarrow> js_le a a"
  by (cases a) auto

lemma js_lt_imp_le: "js_lt a c \<Longrightarrow> js_le a c"
  by (cases a; cases c) auto

lemma fl_mul_NaN: "fl_mul a NaN = NaN"
  by (cases a) simp_all

lemma round64_7_10: "round64 (7 / 10) = Finite (6305039478318694 / 2 ^ 53)"
proof -
  let ?x = "7 / 10 :: real"
  have b: "2 powi (- 1) \<le> \<bar>?x\<bar>" "\<bar>?x\<bar> < 2 powi (- 1 + 1)" by (simp_all add: power_int_minus)
  have "round_half_even (?x / 2 powi (- 1 - 52)) = 6305039478318694"
    by (intro round_half_even_eval(1)) (simp_all add: power_int_minus)
  with round64_normal[OF b, of 6305039478318694] show ?thesis
    by (simp add: power_int_minus)
qed

lemma round64_3_10: "round64 (3 / 10) = Finite (5404319552844595 / 2 ^ 54)"
proof -
  let ?x = "3 / 10 :: real"
  have b: "2 powi (- 2) \<le> \<bar>?x\<bar>" "\<bar>?x\<bar> < 2 powi (- 2 + 1)" by (simp_all add: power_int_minus)
  have "round_half_even (?x / 2 powi (- 2 - 52)) = 5404319552844595"
    by (intro round_half_even_eval(1)) (simp_all add: power_int_minus)
  with round64_normal[OF b, of 5404319552844595] show ?thesis
    by (simp add: power_int_minus)
qed

lemma round64_weight: "round64 (6305039478318694 / 2 ^ 53) = Finite (6305039478318694 / 2 ^ 53)"
  by (rule round64_exact[where e = "- 1" and n = 6305039478318694]) (simp_all add: power_int_minus)

lemma is_number_not_NaN: "is_number d \<Longrightarrow> d \<noteq> NaN"
  by (simp add: is_number_def)

section \<open>Properties of the metrics tracker\<close>

lemma totalQueries_recordQuery:
  "totalQueries (recordQuery t c e m) = totalQueries m + 1"
  by (simp add: recordQuery_def Let_def)

lemma totalQueries_recordQueries:
  "totalQueries (recordQueries calls m) = totalQueries m + length calls"
  by (induction calls m rule: recordQueries.induct) (simp_all add: totalQueries_recordQuery)

lemma averageResponseTime_step:
  "averageResponseTime (recordQuery t c e m) * real (totalQueries m + 1)
     = averageResponseTime m * real (totalQueries m) + t"
  by (simp add: recordQuery_def Let_def)

lemma averageResponseTime_total:
  "averageResponseTime (recordQueries calls m) * real (totalQueries m + length calls)
     = averageResponseTime m * real (totalQueries m) + sum_list (map fst calls)"
proof (induction calls m rule: recordQueries.induct)
  case (1 m)
  show ?case by simp
next
  case (2 t c e calls m)
  with averageResponseTime_step[of t c e m] show ?case
    by (simp add: totalQueries_recordQuery algebra_simps)
qed

text \<open>
  C9. Starting from the initial metrics, after any non-empty sequence of \<open>recordQuery\<close>
  calls the field \<open>averageResponseTime\<close> is the arithmetic mean of the recorded response
  times, and each single call is the incremental-average update
  \<open>newMean = oldMean + (value - oldMean) / n\<close>, with \<open>n\<close> the incremented counter.
\<close>

theorem recordQuery_average_is_mean:
  assumes "calls \<noteq> []"
  shows "averageResponseTime (recordQueries calls initial_metrics)
           = sum_list (map fst calls) / real (length calls)
         \<and> averageResponseTime (recordQuery t c e m)
           = averageResponseTime m
             + (t - averageResponseTime m) / real (totalQueries (recordQuery t c e m))"
proof
  from assms have "real (length calls) \<noteq> 0" by simp
  with averageResponseTime_total[of calls initial_metrics]
  show "averageResponseTime (recordQueries calls initial_metrics)
          = sum_list (map fst calls) / real (length calls)"
    by (simp add: initial_metrics_def field_simps)
next
  show "averageResponseTime (recordQuery t c e m)
          = averageResponseTime m
            + (t - averageResponseTime m) / real (totalQueries (recordQuery t c e m))"
    by (simp add: recordQuery_def Let_def field_simps)
qed

theorem recordQuery_average_is_mean_witness:
  "[(120, False, False), (30, True, False), (90, False, True)] \<noteq> ([] :: (real \<times> bool \<times> bool) list)
   \<and> averageResponseTime
        (recordQueries [(120, False, False), (30, True, False), (90, False, True)] initial_metrics)
       = 80"
proof -
  have ne: "[(120, False, False), (30, True, False), (90, False, True)]
              \<noteq> ([] :: (real \<times> bool \<times> bool) list)"
    by simp
  from recordQuery_average_is_mean [OF ne, THEN conjunct1] ne show ?thesis
    by simp
qed

lemma cacheHitRate_step:
  "cacheHitRate (recordQuery t c e m) * real (totalQueries m + 1)
     = cacheHitRate m * real (totalQueries m) + (if c then 1 else 0)"
  by (simp add: recordQuery_def Let_def)

lemma errorRate_step:
  "errorRate (recordQuery t c e m) * real (totalQueries m + 1)
     = errorRate m * real (totalQueries m) + (if e then 1 else 0)"
  by (simp add: recordQuery_def Let_def)

lemma cacheHitRate_total:
  "cacheHitRate (recordQueries calls m) * real (totalQueries m + length calls)
     = cacheHitRate m * real (totalQueries m) + real (cacheHitCalls calls)"
proof (induction calls m rule: recordQueries.induct)
  case (1 m)
  show ?case by (simp add: cacheHitCalls_def)
next
  case (2 t c e calls m)
  with cacheHitRate_step[of t c e m] show ?case
    by (simp add: totalQueries_recordQuery cacheHitCalls_def algebra_simps)
qed

lemma errorRate_total:
  "errorRate (recordQueries calls m) * real (totalQueries m + length calls)
     = errorRate m * real (totalQueries m) + real (errorCalls calls)"
proof (induction calls m rule: recordQueries.induct)
  case (1 m)
  show ?case by (simp add: errorCalls_def)
next
  case (2 t c e calls m)
  with errorRate_step[of t c e m] show ?case
    by (simp add: totalQueries_recordQuery errorCalls_def algebra_simps)
qed

lemma rate_bounds:
  fixes r :: real
  assumes "r * real n = real k" "k \<le> n"
  shows "n = 0 \<or> (0 \<le> r \<and> r \<le> 1)"
proof (cases "n = 0")
  case False
  then have "r = real k / real n" using assms(1) by (simp add: field_simps)
  with assms(2) False show ?thesis by simp
qed simp

text \<open>
  C10. After every sequence of \<open>recordQuery\<close> calls from the initial state,
  \<open>totalQueries\<close> is the number of calls, \<open>totalQueries * cacheHitRate\<close> is the number of
  calls with \<open>cacheHit\<close> true, \<open>totalQueries * errorRate\<close> is the number of calls with
  \<open>error\<close> true, and both rates lie in the unit interval.
\<close>

theorem metrics_invariant:
  "totalQueries (recordQueries calls initial_metrics) = length calls
   \<and> real (totalQueries (recordQueries calls initial_metrics))
       * cacheHitRate (recordQueries calls initial_metrics) = real (cacheHitCalls calls)
   \<and> real (totalQueries (recordQueries calls initial_metrics))
       * errorRate (recordQueries calls initial_metrics) = real (errorCalls calls)
   \<and> 0 \<le> cacheHitRate (recordQueries calls initial_metrics)
   \<and> cacheHitRate (recordQueries calls initial_metrics) \<le> 1
   \<and> 0 \<le> errorRate (recordQueries calls initial_metrics)
   \<and> errorRate (recordQueries calls initial_metrics) \<le> 1"
proof -
  let ?m = "recordQueries calls initial_metrics"
  have tq: "totalQueries ?m = length calls"
    by (simp add: totalQueries_recordQueries initial_metrics_def)
  have ch: "cacheHitRate ?m * real (length calls) = real (cacheHitCalls calls)"
    using cacheHitRate_total[of calls initial_metrics] by (simp add: initial_metrics_def)
  have er: "errorRate ?m * real (length calls) = real (errorCalls calls)"
    using errorRate_total[of calls initial_metrics] by (simp add: initial_metrics_def)
  have start: "cacheHitRate (recordQueries [] initial_metrics) = 0"
    "errorRate (recordQueries [] initial_metrics) = 0"
    by (simp_all add: initial_metrics_def)
  have "cacheHitCalls calls \<le> length calls" "errorCalls calls \<le> length calls"
    by (simp_all add: cacheHitCalls_def errorCalls_def)
  with rate_bounds[OF ch] rate_bounds[OF er]
  have "0 \<le> cacheHitRate ?m \<and> cacheHitRate ?m \<le> 1" "0 \<le> errorRate ?m \<and> errorRate ?m \<le> 1"
    using start by (cases calls; auto)+
  with tq ch er show ?thesis by (simp add: mult.commute)
qed

section \<open>Properties of the evaluator\<close>

lemma set_foldl_Set_add: "set (foldl Set_add acc xs) = set acc \<union> set xs"
  by (induction xs arbitrary: acc) (auto simp: Set_add_def)

lemma distinct_foldl_Set_add: "distinct acc \<Longrightarrow> distinct (foldl Set_add acc xs)"
  by (induction xs arbitrary: acc) (auto simp: Set_add_def)

lemma set_new_Set: "set (new_Set xs) = set xs"
  by (simp add: new_Set_def set_foldl_Set_add)

lemma distinct_new_Set: "distinct (new_Set xs)"
  by (simp add: new_Set_def distinct_foldl_Set_add)

lemma length_new_Set: "length (new_Set xs) = card (set xs)"
  using distinct_card[OF distinct_new_Set, of xs] by (simp add: set_new_Set)

lemma new_Set_eq_Nil: "new_Set xs = [] \<longleftrightarrow> xs = []"
  using set_new_Set[of xs] by (metis set_empty)

text \<open>
  The similarity is the Jaccard index of the two term sets whenever one of the texts
  has a term, and \<open>NaN\<close> when neither has.
\<close>

lemma calculateSemanticSimilarity_jaccard:
  "calculateSemanticSimilarity env text1 text2 =
     (if compromise_terms env text1 = [] \<and> compromise_terms env text2 = [] then None
      else Some (real (card (set (compromise_terms env text1) \<inter> set (compromise_terms env text2)))
                 / real (card (set (compromise_terms env text1) \<union> set (compromise_terms env text2)))))"
proof -
  have "{x \<in> set (compromise_terms env text1). x \<in> set (compromise_terms env text2)}
          = set (compromise_terms env text1) \<inter> set (compromise_terms env text2)"
    by auto
  then show ?thesis
    by (simp add: calculateSemanticSimilarity_def Let_def length_new_Set set_new_Set
        new_Set_eq_Nil del: length_0_conv)
qed

text \<open>
  C7. \<open>answerRelevance\<close> is the Jaccard similarity of the term sets of question and
  answer, and a defined conventional value is returned when both term sets are empty.
  The code has no such convention: for the question of three blanks and the empty
  answer, neither of which has a term, it evaluates \<open>0 / 0\<close> and returns \<open>NaN\<close>.
\<close>

theorem answerRelevance_empty_terms_is_NaN:
  "calculateAnswerRelevance sample_services (js ''   '') (js '''') = None"
  by (simp add: calculateAnswerRelevance_def calculateSemanticSimilarity_jaccard
      sample_services_def js_def)

lemma calculateContextPrecision_no_reference:
  "calculateContextPrecision env retrievedChunks [] = 0"
  by (simp add: calculateContextPrecision_def)

text \<open>
  C8, as first stated: without a reference set, \<open>contextPrecision\<close> is a neutral value
  rather than zero. The code reports zero: evaluating a question and an answer against
  one retrieved chunk, the fourth argument omitted, gives \<open>contextPrecision = 0\<close>.
\<close>

theorem contextPrecision_no_reference_counterexample:
  "map_sum message contextPrecision
     (evaluateRAGResponse sample_services (js ''what is a cat'') (js ''a cat is a pet'')
        [sample_chunk ''doc_1_chunk_0'' ''a cat is a pet'' [1, 0]] None)
   = Inr 0"
  by (simp add: evaluateRAGResponse_def calculateFaithfulness_def
      calculateContextPrecision_no_reference Let_def sample_services_def)

text \<open>
  C8, amended. When no reference set is supplied (the argument is omitted, or is the
  empty list), \<open>contextPrecision\<close> is 0 for every question, answer and list of retrieved
  chunks: \<open>evaluateRAGResponse\<close> either returns an evaluation with
  \<open>contextPrecision = 0\<close>, or fails with the error thrown by the sentence tokenizer.
\<close>

theorem contextPrecision_no_reference_is_zero:
  "calculateContextPrecision env retrievedChunks [] = 0 \<and>
   (case evaluateRAGResponse env question answer retrievedChunks None of
      Inl e \<Rightarrow> SentenceTokenizer_tokenize env answer = Inl e
    | Inr ev \<Rightarrow> contextPrecision ev = 0)"
  by (simp add: evaluateRAGResponse_def calculateFaithfulness_def
      calculateContextPrecision_no_reference Let_def split: sum.splits)

theorem contextPrecision_no_reference_is_zero_witness:
  "map_sum message contextPrecision
     (evaluateRAGResponse sample_services (js ''why'') (js ''because. it is so'')
        [sample_chunk ''doc_1_chunk_0'' ''it is so'' [1, 0],
         sample_chunk ''doc_1_chunk_1'' ''it is not'' [0, 1]] None)
   = Inr 0"
  using contextPrecision_no_reference_is_zero
          [where env = sample_services and question = "js ''why''"
             and answer = "js ''because. it is so''"
             and retrievedChunks = "[sample_chunk ''doc_1_chunk_0'' ''it is so'' [1, 0],
                                     sample_chunk ''doc_1_chunk_1'' ''it is not'' [0, 1]]"]
  by (auto simp: sample_services_def evaluateRAGResponse_def calculateFaithfulness_def Let_def
      split: sum.splits)

section \<open>Properties of the scoring functions\<close>

subsection \<open>Cosine similarity\<close>










subsection \<open>BM25\<close>

lemma foldl_add_sum: "foldl (\<lambda>sum x. sum + f x) (a::real) xs = a + sum_list (map f xs)"
  by (induction xs arbitrary: a) (simp_all add: algebra_simps)

lemma avgDocLength_nonneg: "0 \<le> avgDocLength corpus"
proof -
  have "0 \<le> sum_list (map (\<lambda>doc. real (length doc)) corpus)"
    by (induction corpus) simp_all
  then show ?thesis
    unfolding avgDocLength_def foldl_add_sum[of "\<lambda>doc. real (length doc)" 0 corpus] by simp
qed

lemma tf_nonneg: "0 \<le> tf docTokens corpus term"
  unfolding tf_def bm25_k1_def bm25_b_def using avgDocLength_nonneg[of corpus]
  by (intro divide_nonneg_nonneg add_nonneg_nonneg mult_nonneg_nonneg) simp_all

lemma tf_zero: "term \<notin> set docTokens \<Longrightarrow> tf docTokens corpus term = 0"
  by (auto simp: tf_def termFreq_def filter_empty_conv)

lemma docFreq_le: "docFreq env corpus term \<le> length corpus"
  by (simp add: docFreq_def)

lemma idf_nonneg:
  assumes "2 * docFreq env corpus term \<le> length corpus"
  shows "0 \<le> idf env corpus term"
proof -
  have "1 \<le> (real (length corpus) - real (docFreq env corpus term) + 5 / 10)
         / (real (docFreq env corpus term) + 5 / 10)"
    using assms by (simp add: le_divide_eq)
  then show ?thesis unfolding idf_def by simp
qed

lemma bm25_step_nonneg:
  assumes "0 \<le> score" "term \<in> set docTokens \<longrightarrow> 2 * docFreq env corpus term \<le> length corpus"
  shows "0 \<le> bm25_step env docTokens corpus score term"
proof (cases "term \<in> set docTokens")
  case True
  with assms idf_nonneg tf_nonneg show ?thesis by (simp add: bm25_step_def)
next
  case False
  with assms(1) show ?thesis by (simp add: bm25_step_def tf_zero)
qed

lemma foldl_bm25_nonneg:
  assumes "0 \<le> score"
    "\<forall>term\<in>set ts. term \<in> set docTokens \<longrightarrow> 2 * docFreq env corpus term \<le> length corpus"
  shows "0 \<le> foldl (bm25_step env docTokens corpus) score ts"
  using assms
proof (induction ts arbitrary: score)
  case Nil then show ?case by simp
next
  case (Cons t ts)
  then show ?case using bm25_step_nonneg[of score t docTokens env corpus] by simp
qed

lemma starts_with_Nil: "starts_with [] t \<longleftrightarrow> t = []" by (cases t) simp_all

lemma str_includes_nonempty: "str_includes s term \<Longrightarrow> term \<noteq> [] \<Longrightarrow> s \<noteq> []"
  by (cases s) auto

lemma avgDocLength_pos:
  assumes "toLowerCase env [] = []" "term \<noteq> []" "0 < docFreq env corpus term"
  shows "0 < avgDocLength corpus"
proof -
  from assms(3) obtain doc where d: "doc \<in> set corpus" "str_includes (toLowerCase env doc) term"
    unfolding docFreq_def by (auto simp: filter_empty_conv)
  with assms(1,2) str_includes_nonempty have "doc \<noteq> []" by metis
  then have "0 < length doc" by simp
  also have "length doc \<le> sum_list (map length corpus)"
    using d(1) by (intro member_le_sum_list) auto
  finally have "0 < real (sum_list (map length corpus))" by simp
  also have "real (sum_list (map length corpus)) = sum_list (map (\<lambda>doc. real (length doc)) corpus)"
    by (induction corpus) simp_all
  finally have "0 < sum_list (map (\<lambda>doc. real (length doc)) corpus)" .
  moreover from d(1) have "0 < length corpus" by (cases corpus) auto
  ultimately show ?thesis
    unfolding avgDocLength_def foldl_add_sum[of "\<lambda>doc. real (length doc)" 0 corpus] by simp
qed

lemma bm25_sample_tokens:
  "WordTokenizer_tokenize sample_services (toLowerCase sample_services (js ''cat'')) = [js ''cat'']"
  by (simp add: sample_services_def js_def ascii_lower_def is_word_char_def)

lemma bm25_sample_value:
  "calculateBM25Score sample_services (js ''cat'') (js ''cat'') [js ''cat''] = ln (1 / 3) * (11 / 8)"
  by (simp add: calculateBM25Score_def bm25_sample_tokens bm25_step_def docFreq_def idf_def
      tf_def termFreq_def avgDocLength_def bm25_k1_def bm25_b_def js_def sample_services_def
      ascii_lower_def is_word_char_def)

text \<open>
  C6, as first stated: the score is non-negative whenever every query term that occurs
  in the document occurs in some corpus document. It is not: for the one-document
  corpus \<open>cat\<close>, the document \<open>cat\<close> and the query \<open>cat\<close>, the only query term occurs in
  the document and in one corpus document, and the score is \<open>ln (1/3) * 11/8\<close>, a
  negative number.
\<close>

theorem bm25_nonneg_counterexample:
  "WordTokenizer_tokenize sample_services (toLowerCase sample_services (js ''cat'')) = [js ''cat'']
   \<and> docFreq sample_services [js ''cat''] (js ''cat'') = 1
   \<and> calculateBM25Score sample_services (js ''cat'') (js ''cat'') [js ''cat''] < 0"
proof -
  have "ln (1 / 3 :: real) < 0" by (intro ln_less_zero) simp_all
  then have "calculateBM25Score sample_services (js ''cat'') (js ''cat'') [js ''cat''] < 0"
    unfolding bm25_sample_value by (simp add: mult_less_0_iff)
  moreover have "docFreq sample_services [js ''cat''] (js ''cat'') = 1"
    by (simp add: docFreq_def sample_services_def js_def ascii_lower_def)
  ultimately show ?thesis using bm25_sample_tokens by simp
qed

text \<open>
  C6, amended. The score is non-negative whenever every query term that occurs among
  the document's tokens occurs in at most half of the corpus documents. A query term
  that occurs in no corpus document leaves the running score unchanged. No division
  by zero occurs: for a non-empty query term that occurs in some corpus document the
  average document length and both denominators are positive (the tokenizer is assumed
  to return no empty token, and lower-casing to keep the empty string empty).
\<close>

theorem bm25_nonneg_for_rare_terms:
  assumes tokens: "[] \<notin> set (WordTokenizer_tokenize env (toLowerCase env query))"
    and lower: "toLowerCase env [] = []"
    and rare: "\<forall>term \<in> set (WordTokenizer_tokenize env (toLowerCase env query)).
                 term \<in> set (WordTokenizer_tokenize env (toLowerCase env document))
                 \<longrightarrow> 2 * docFreq env corpus term \<le> length corpus"
  shows "0 \<le> calculateBM25Score env query document corpus
         \<and> (\<forall>term docTokens score. docFreq env corpus term = 0
               \<longrightarrow> bm25_step env docTokens corpus score term = score)
         \<and> (\<forall>term \<in> set (WordTokenizer_tokenize env (toLowerCase env query)).
               \<forall>docTokens. 0 < docFreq env corpus term
               \<longrightarrow> 0 < avgDocLength corpus
                 \<and> 0 < real (docFreq env corpus term) + 5 / 10
                 \<and> 0 < real (termFreq docTokens term)
                       + bm25_k1 * (1 - bm25_b
                           + bm25_b * (real (length docTokens) / avgDocLength corpus)))"
proof (intro conjI ballI allI impI)
  show "0 \<le> calculateBM25Score env query document corpus"
    unfolding calculateBM25Score_def Let_def using rare by (intro foldl_bm25_nonneg) simp_all
next
  fix t :: jsstring and docTokens score
  assume "docFreq env corpus t = 0"
  then show "bm25_step env docTokens corpus score t = score" by (simp add: bm25_step_def)
next
  fix t :: jsstring and docTokens :: "jsstring list"
  assume t: "t \<in> set (WordTokenizer_tokenize env (toLowerCase env query))"
    and df: "0 < docFreq env corpus t"
  from t tokens have "t \<noteq> []" by auto
  from avgDocLength_pos[OF lower this df] show avg: "0 < avgDocLength corpus" .
  show "0 < real (docFreq env corpus t) + 5 / 10" by simp
  have "0 \<le> real (length docTokens) / avgDocLength corpus" using avg by simp
  then have "0 < bm25_k1 * (1 - bm25_b + bm25_b * (real (length docTokens) / avgDocLength corpus))"
    unfolding bm25_k1_def bm25_b_def by simp
  then show "0 < real (termFreq docTokens t)
                 + bm25_k1 * (1 - bm25_b
                     + bm25_b * (real (length docTokens) / avgDocLength corpus))"
    by (simp add: add_nonneg_pos)
qed

theorem bm25_nonneg_for_rare_terms_witness:
  "0 \<le> calculateBM25Score sample_services (js ''Cat'') (js ''cat sat'')
          [js ''cat sat'', js ''dog ran'', js ''a bird'']"
proof -
  have q: "WordTokenizer_tokenize sample_services (toLowerCase sample_services (js ''Cat''))
             = [js ''cat'']"
    by (simp add: sample_services_def js_def ascii_lower_def is_word_char_def)
  have 1: "[] \<notin> set (WordTokenizer_tokenize sample_services (toLowerCase sample_services (js ''Cat'')))"
    unfolding q by (simp add: js_def)
  have 2: "toLowerCase sample_services [] = []"
    by (simp add: sample_services_def ascii_lower_def)
  have "docFreq sample_services [js ''cat sat'', js ''dog ran'', js ''a bird''] (js ''cat'') = 1"
    by (simp add: docFreq_def sample_services_def js_def ascii_lower_def)
  then have 3: "\<forall>term \<in> set (WordTokenizer_tokenize sample_services (toLowerCase sample_services (js ''Cat''))).
                 term \<in> set (WordTokenizer_tokenize sample_services
                               (toLowerCase sample_services (js ''cat sat'')))
                 \<longrightarrow> 2 * docFreq sample_services [js ''cat sat'', js ''dog ran'', js ''a bird''] term
                       \<le> length [js ''cat sat'', js ''dog ran'', js ''a bird'']"
    unfolding q by simp
  from bm25_nonneg_for_rare_terms [OF 1 2 3] show ?thesis by simp
qed

section \<open>Properties of query expansion\<close>

lemma generateMultipleQueries_returns:
  "\<exists>variations.
     generateMultipleQueries env originalQuery numQueries = Inr (originalQuery # variations)"
  by (auto simp: generateMultipleQueries_def split: sum.splits)

text \<open>
  C3. For every original question and every behaviour of the generation call,
  \<open>generateMultipleQueries\<close> returns normally, with a sequence whose first element is the
  original question (so its length is at least 1); when the call throws, or reading
  the text of its response throws, the sequence is exactly the original question.
\<close>

theorem generateMultipleQueries_original_first:
  "\<exists>variations.
     generateMultipleQueries env originalQuery numQueries = Inr (originalQuery # variations)
     \<and> ((\<exists>e. generateContent env (expansion_prompt originalQuery numQueries) = Inl e)
          \<or> (\<exists>response e. generateContent env (expansion_prompt originalQuery numQueries)
                               = Inr response \<and> response_text response = Inl e)
         \<longrightarrow> variations = [])"
  by (auto simp: generateMultipleQueries_def split: sum.splits)

theorem generateMultipleQueries_original_first_witness:
  "generateMultipleQueries sample_services (js ''what is a cat'') 3 = Inr [js ''what is a cat'']"
proof -
  have "\<exists>e. generateContent sample_services (expansion_prompt (js ''what is a cat'') 3) = Inl e"
    by (simp add: sample_services_def)
  with generateMultipleQueries_original_first [of sample_services "js ''what is a cat''" 3]
  show ?thesis by auto
qed

section \<open>Properties of hybrid retrieval\<close>

lemma cosineSimilarity_returns: "\<exists>r. cosineSimilarity env vec1 vec2 = Inr r"
  by (simp add: cosineSimilarity_def Let_def split: option.splits sum.splits)

lemma score_chunk_returns: "\<exists>r. score_chunk env v qv corpus c = Inr r"
  using cosineSimilarity_returns[of env "Some qv" "embedding c"]
  by (auto simp: score_chunk_def Let_def)

lemma score_chunk_chunk: "score_chunk env v qv corpus c = Inr r \<Longrightarrow> chunk r = c"
  by (auto simp: score_chunk_def Let_def split: sum.splits)

lemma score_chunks_set:
  "\<exists>res. score_chunks env v qv corpus cs acc = Inr res
     \<and> set res = set acc \<union> {r. \<exists>c\<in>set cs. score_chunk env v qv corpus c = Inr r}"
proof (induction cs arbitrary: acc)
  case Nil
  show ?case by simp
next
  case (Cons c cs)
  obtain r where r: "score_chunk env v qv corpus c = Inr r"
    using score_chunk_returns by blast
  from Cons[of "acc @ [r]"] r show ?case by auto
qed

lemma score_variations_set:
  assumes "\<forall>v\<in>set vs. \<exists>qv. embedContent env v = Inr qv"
  shows "\<exists>res. score_variations env allChunks vs acc = Inr res
     \<and> set res = set acc \<union> {r. \<exists>v\<in>set vs. \<exists>qv. \<exists>c\<in>set allChunks.
           embedContent env v = Inr qv \<and> score_chunk env v qv (map content allChunks) c = Inr r}"
  using assms
proof (induction vs arbitrary: acc)
  case Nil
  show ?case by simp
next
  case (Cons v vs)
  then obtain qv where qv: "embedContent env v = Inr qv" by auto
  obtain res1 where res1: "score_chunks env v qv (map content allChunks) allChunks acc = Inr res1"
    "set res1 = set acc \<union> {r. \<exists>c\<in>set allChunks. score_chunk env v qv (map content allChunks) c = Inr r}"
    using score_chunks_set by blast
  from Cons.prems have "\<forall>v\<in>set vs. \<exists>qv. embedContent env v = Inr qv" by simp
  from Cons.IH[OF this, of res1] obtain res where res: "score_variations env allChunks vs res1 = Inr res"
    "set res = set res1 \<union> {r. \<exists>v\<in>set vs. \<exists>qv. \<exists>c\<in>set allChunks.
           embedContent env v = Inr qv \<and> score_chunk env v qv (map content allChunks) c = Inr r}"
    by blast
  have "score_variations env allChunks (v # vs) acc = Inr res"
    using qv res1(1) res(1) by simp
  moreover have "set res = set acc \<union> {r. \<exists>v'\<in>set (v # vs). \<exists>qv. \<exists>c\<in>set allChunks.
           embedContent env v' = Inr qv \<and> score_chunk env v' qv (map content allChunks) c = Inr r}"
    unfolding res(2) res1(2) using qv by auto
  ultimately show ?case by blast
qed

lemma Map_set_keys: "map fst (Map_set k v m) = (if k \<in> fst ` set m then map fst m else map fst m @ [k])"
  by (induction k v m rule: Map_set.induct) (auto simp: image_iff)

lemma Map_set_other: "k' \<noteq> k \<Longrightarrow> (k', v') \<in> set (Map_set k v m) \<longleftrightarrow> (k', v') \<in> set m"
  by (induction k v m rule: Map_set.induct) auto

lemma Map_set_same: "distinct (map fst m) \<Longrightarrow> (k, v') \<in> set (Map_set k v m) \<longleftrightarrow> v' = v"
  by (induction k v m rule: Map_set.induct) (auto simp: image_iff)

lemma distinct_Map_set: "distinct (map fst m) \<Longrightarrow> distinct (map fst (Map_set k v m))"
  by (simp add: Map_set_keys)

lemma Map_get_Some: "distinct (map fst m) \<Longrightarrow> Map_get m k = Some v \<longleftrightarrow> (k, v) \<in> set m"
  by (simp add: Map_get_def)

lemma Map_get_None: "Map_get m k = None \<longleftrightarrow> k \<notin> fst ` set m"
  by (simp add: Map_get_def map_of_eq_None_iff)

lemma unique_inv_Map_set:
  assumes inv: "unique_inv seen m"
    and better: "\<And>kept. (chunk_id (chunk r), kept) \<in> set m \<Longrightarrow> js_le (hybridScore kept) (hybridScore r)"
    and number: "hybridScore r \<noteq> NaN"
  shows "unique_inv (seen @ [r]) (Map_set (chunk_id (chunk r)) r m)"
proof -
  let ?k = "chunk_id (chunk r)"
  let ?m = "Map_set ?k r m"
  from inv have d: "distinct (map fst m)"
    and own: "\<And>k kept. (k, kept) \<in> set m \<Longrightarrow> chunk_id (chunk kept) = k \<and> kept \<in> set seen"
    and best: "\<And>x. x \<in> set seen \<Longrightarrow> \<exists>kept. (chunk_id (chunk x), kept) \<in> set m \<and> js_le (hybridScore x) (hybridScore kept)"
    unfolding unique_inv_def by blast+
  have 1: "distinct (map fst ?m)" using d by (rule distinct_Map_set)
  have 2: "chunk_id (chunk kept) = k \<and> kept \<in> set (seen @ [r])" if "(k, kept) \<in> set ?m" for k kept
  proof (cases "k = ?k")
    case True
    with that Map_set_same[OF d] have "kept = r" by blast
    with True show ?thesis by simp
  next
    case False
    with that Map_set_other have "(k, kept) \<in> set m" by metis
    from own[OF this] show ?thesis by simp
  qed
  have 3: "\<exists>kept. (chunk_id (chunk x), kept) \<in> set ?m \<and> js_le (hybridScore x) (hybridScore kept)"
    if "x \<in> set (seen @ [r])" for x
  proof (cases "chunk_id (chunk x) = ?k")
    case same: True
    have r_in: "(?k, r) \<in> set ?m" using Map_set_same[OF d] by blast
    show ?thesis
    proof (cases "x = r")
      case True
      with r_in js_le_refl[OF number] show ?thesis by auto
    next
      case False
      with that have "x \<in> set seen" by simp
      from best[OF this] same obtain kept where "(?k, kept) \<in> set m" "js_le (hybridScore x) (hybridScore kept)"
        by auto
      with better[of kept] have "js_le (hybridScore x) (hybridScore r)" by (blast intro: js_le_trans)
      with r_in same show ?thesis by auto
    qed
  next
    case False
    with that have "x \<in> set seen" by auto
    from best[OF this] obtain kept where "(chunk_id (chunk x), kept) \<in> set m" "js_le (hybridScore x) (hybridScore kept)"
      by auto
    with False Map_set_other[of "chunk_id (chunk x)" ?k kept r m] show ?thesis by auto
  qed
  from 1 2 3 show ?thesis unfolding unique_inv_def by blast
qed

lemma unique_step_inv:
  assumes inv: "unique_inv seen m"
    and numbers: "\<forall>x \<in> set seen. hybridScore x \<noteq> NaN"
    and number: "hybridScore r \<noteq> NaN"
  shows "unique_inv (seen @ [r]) (unique_step m r)"
proof -
  let ?k = "chunk_id (chunk r)"
  from inv have d: "distinct (map fst m)"
    and own: "\<And>k kept. (k, kept) \<in> set m \<Longrightarrow> chunk_id (chunk kept) = k \<and> kept \<in> set seen"
    and best: "\<And>x. x \<in> set seen \<Longrightarrow> \<exists>kept. (chunk_id (chunk x), kept) \<in> set m \<and> js_le (hybridScore x) (hybridScore kept)"
    unfolding unique_inv_def by blast+
  show ?thesis
  proof (cases "Map_get m ?k")
    case None
    then have new: "\<And>kept. (?k, kept) \<notin> set m" by (force simp: Map_get_None)
    have step: "unique_step m r = Map_set ?k r m" using None by (simp add: unique_step_def)
    show ?thesis unfolding step using new by (intro unique_inv_Map_set[OF inv _ number]) blast
  next
    case (Some kept)
    then have kept: "(?k, kept) \<in> set m" using Map_get_Some[OF d] by simp
    have uniq: "v = kept" if "(?k, v) \<in> set m" for v
      using d kept that by (meson eq_key_imp_eq_value)
    from own[OF kept] numbers have kept_number: "hybridScore kept \<noteq> NaN" by blast
    show ?thesis
    proof (cases "js_lt (hybridScore kept) (hybridScore r)")
      case True
      have step: "unique_step m r = Map_set ?k r m" using Some True by (simp add: unique_step_def)
      have "js_le (hybridScore v) (hybridScore r)" if "(?k, v) \<in> set m" for v
        using uniq[OF that] js_lt_imp_le[OF True] by simp
      then show ?thesis unfolding step by (intro unique_inv_Map_set[OF inv _ number])
    next
      case False
      have step: "unique_step m r = m" using Some False by (simp add: unique_step_def)
      from False have le: "js_le (hybridScore r) (hybridScore kept)"
        using js_le_iff_not_lt[OF number kept_number] by simp
      have 2: "chunk_id (chunk v) = k \<and> v \<in> set (seen @ [r])" if "(k, v) \<in> set m" for k v
        using own[OF that] by simp
      have 3: "\<exists>kept'. (chunk_id (chunk x), kept') \<in> set m \<and> js_le (hybridScore x) (hybridScore kept')"
        if "x \<in> set (seen @ [r])" for x
      proof (cases "x = r")
        case True
        with kept le show ?thesis by auto
      next
        case False
        with that have "x \<in> set seen" by simp
        from best[OF this] show ?thesis .
      qed
      from d 2 3 show ?thesis unfolding unique_inv_def step by blast
    qed
  qed
qed

lemma foldl_unique_inv:
  "unique_inv seen m \<Longrightarrow> \<forall>x \<in> set (seen @ rs). hybridScore x \<noteq> NaN
     \<Longrightarrow> unique_inv (seen @ rs) (foldl unique_step m rs)"
proof (induction rs arbitrary: seen m)
  case Nil then show ?case by simp
next
  case (Cons r rs)
  have "unique_inv (seen @ [r]) (unique_step m r)"
    using Cons.prems by (intro unique_step_inv) simp_all
  from Cons.IH[OF this] Cons.prems(2) show ?case by simp
qed

lemma unique_inv_start: "unique_inv [] []"
  by (simp add: unique_inv_def)

lemma set_insert_by: "set (insert_by cmp x ys) = insert x (set ys)"
  by (induction ys) auto

lemma set_sort_by: "set (sort_by cmp xs) = set xs"
  unfolding sort_by_def by (induction xs) (simp_all add: set_insert_by)

lemma length_insert_by: "length (insert_by cmp x ys) = Suc (length ys)"
  by (induction ys) auto

lemma length_sort_by: "length (sort_by cmp xs) = length xs"
  unfolding sort_by_def by (induction xs) (simp_all add: length_insert_by)

lemma distinct_map_insert_by:
  "distinct (map f (insert_by cmp x ys)) \<longleftrightarrow> f x \<notin> f ` set ys \<and> distinct (map f ys)"
  by (induction ys) (auto simp: set_insert_by)

lemma distinct_map_sort_by: "distinct (map f (sort_by cmp xs)) \<longleftrightarrow> distinct (map f xs)"
  unfolding sort_by_def
  by (induction xs) (simp_all add: distinct_map_insert_by set_sort_by[unfolded sort_by_def])

lemma sorted_insert_by:
  assumes "is_number (hybridScore x)" "\<forall>y \<in> set ys. is_number (hybridScore y)"
    and "sorted_wrt (\<lambda>a b. js_le (hybridScore b) (hybridScore a)) ys"
  shows "sorted_wrt (\<lambda>a b. js_le (hybridScore b) (hybridScore a))
           (insert_by (\<lambda>a b. fl_sub (hybridScore b) (hybridScore a)) x ys)"
  using assms(2,3)
proof (induction ys)
  case Nil
  show ?case by simp
next
  case (Cons y ys)
  have xn: "hybridScore x \<noteq> NaN" and yn: "hybridScore y \<noteq> NaN"
    using assms(1) Cons.prems(1) by (simp_all add: is_number_def)
  have sign: "js_lt (Finite 0) (fl_sub (hybridScore y) (hybridScore x)) \<longleftrightarrow> js_lt (hybridScore x) (hybridScore y)"
    using comparator_sign[of "hybridScore x" "hybridScore y"] assms(1) Cons.prems(1) by simp
  show ?case
  proof (cases "js_lt (hybridScore x) (hybridScore y)")
    case True
    from Cons have "sorted_wrt (\<lambda>a b. js_le (hybridScore b) (hybridScore a))
           (insert_by (\<lambda>a b. fl_sub (hybridScore b) (hybridScore a)) x ys)" by simp
    with True sign Cons.prems(2) js_lt_imp_le[OF True] show ?thesis
      by (auto simp: set_insert_by)
  next
    case False
    then have le: "js_le (hybridScore y) (hybridScore x)"
      using js_le_iff_not_lt[OF yn xn] by simp
    have "js_le (hybridScore z) (hybridScore x)" if "z \<in> set ys" for z
      using Cons.prems(2) that le by (auto intro: js_le_trans)
    with False sign le Cons.prems(2) show ?thesis by auto
  qed
qed

lemma sorted_sort_by:
  "\<forall>y \<in> set xs. is_number (hybridScore y)
   \<Longrightarrow> sorted_wrt (\<lambda>a b. js_le (hybridScore b) (hybridScore a))
         (sort_by (\<lambda>a b. fl_sub (hybridScore b) (hybridScore a)) xs)"
  unfolding sort_by_def
  by (induction xs) (simp_all add: sorted_insert_by set_sort_by[unfolded sort_by_def])

lemma slice0_take: "0 \<le> n \<Longrightarrow> slice0 n xs = take (nat n) xs"
  by (simp add: slice0_def)

lemma sorted_wrt_take: "sorted_wrt P xs \<Longrightarrow> sorted_wrt P (take n xs)"
  by (metis append_take_drop_id sorted_wrt_append)

lemma score_chunk_number:
  "score_chunk env v qv corpus c = Inr r \<Longrightarrow> hybridScore r \<noteq> NaN \<Longrightarrow> is_number (hybridScore r)"
  by (auto simp: score_chunk_def Let_def is_number_fl_add split: sum.splits)

lemma topResults_properties:
  assumes "0 \<le> maxResults" and numbers: "\<forall>x \<in> set hs. is_number (hybridScore x)"
  shows "length (topResults maxResults hs)
           = min (nat maxResults) (card ((\<lambda>r. chunk_id (chunk r)) ` set hs))"
    and "distinct (map (\<lambda>r. chunk_id (chunk r)) (topResults maxResults hs))"
    and "sorted_wrt (\<lambda>a b. js_le (hybridScore b) (hybridScore a)) (topResults maxResults hs)"
    and "\<forall>r \<in> set (topResults maxResults hs). r \<in> set hs
           \<and> (\<forall>x \<in> set hs. chunk_id (chunk x) = chunk_id (chunk r)
                  \<longrightarrow> js_le (hybridScore x) (hybridScore r))"
    and "\<forall>x \<in> set hs.
           (\<exists>r \<in> set (topResults maxResults hs). chunk_id (chunk r) = chunk_id (chunk x))
           \<or> (length (topResults maxResults hs) = nat maxResults
               \<and> (\<forall>r \<in> set (topResults maxResults hs). js_le (hybridScore x) (hybridScore r)))"
proof -
  let ?m = "foldl unique_step [] hs"
  let ?sorted = "sort_by (\<lambda>a b. fl_sub (hybridScore b) (hybridScore a)) (Map_values ?m)"
  let ?top = "topResults maxResults hs"
  have top: "?top = take (nat maxResults) ?sorted"
    using assms(1) by (simp add: topResults_def slice0_take)
  from numbers have "\<forall>x \<in> set ([] @ hs). hybridScore x \<noteq> NaN"
    by (simp add: is_number_not_NaN)
  from foldl_unique_inv[OF unique_inv_start this] have inv: "unique_inv hs ?m" by simp
  then have d: "distinct (map fst ?m)"
    and own: "\<And>k kept. (k, kept) \<in> set ?m \<Longrightarrow> chunk_id (chunk kept) = k \<and> kept \<in> set hs"
    and best: "\<And>x. x \<in> set hs \<Longrightarrow> \<exists>kept. (chunk_id (chunk x), kept) \<in> set ?m
                  \<and> js_le (hybridScore x) (hybridScore kept)"
    unfolding unique_inv_def by blast+
  have values_hs: "set (Map_values ?m) \<subseteq> set hs"
    unfolding Map_values_def using own by auto
  have keys: "map (\<lambda>r. chunk_id (chunk r)) (Map_values ?m) = map fst ?m"
    unfolding Map_values_def using own by (auto simp: map_eq_conv)
  have key_set: "fst ` set ?m = (\<lambda>r. chunk_id (chunk r)) ` set hs"
  proof (intro set_eqI iffI)
    fix k assume "k \<in> fst ` set ?m"
    then obtain kept where "(k, kept) \<in> set ?m" by auto
    from own[OF this] show "k \<in> (\<lambda>r. chunk_id (chunk r)) ` set hs" by auto
  next
    fix k assume "k \<in> (\<lambda>r. chunk_id (chunk r)) ` set hs"
    then obtain x where "x \<in> set hs" "k = chunk_id (chunk x)" by auto
    with best[of x] show "k \<in> fst ` set ?m" by force
  qed
  have "length ?sorted = length (map fst ?m)"
    by (simp add: length_sort_by Map_values_def)
  also have "\<dots> = card (set (map fst ?m))" using d by (simp only: distinct_card)
  also have "\<dots> = card ((\<lambda>r. chunk_id (chunk r)) ` set hs)" using key_set by simp
  finally have len: "length ?sorted = card ((\<lambda>r. chunk_id (chunk r)) ` set hs)" .
  show "length ?top = min (nat maxResults) (card ((\<lambda>r. chunk_id (chunk r)) ` set hs))"
    unfolding top using len by simp
  have "distinct (map (\<lambda>r. chunk_id (chunk r)) ?sorted)"
    unfolding distinct_map_sort_by keys using d .
  then show "distinct (map (\<lambda>r. chunk_id (chunk r)) ?top)"
    unfolding top take_map[symmetric] by (rule distinct_take)
  have sorted: "sorted_wrt (\<lambda>a b. js_le (hybridScore b) (hybridScore a)) ?sorted"
    using numbers values_hs by (intro sorted_sort_by) blast
  then show "sorted_wrt (\<lambda>a b. js_le (hybridScore b) (hybridScore a)) ?top"
    unfolding top by (rule sorted_wrt_take)
  show "\<forall>r \<in> set ?top. r \<in> set hs
           \<and> (\<forall>x \<in> set hs. chunk_id (chunk x) = chunk_id (chunk r)
                  \<longrightarrow> js_le (hybridScore x) (hybridScore r))"
  proof (intro ballI conjI impI)
    fix r assume "r \<in> set ?top"
    then have "r \<in> set (Map_values ?m)" unfolding top using set_sort_by in_set_takeD by fast
    then obtain k where k: "(k, r) \<in> set ?m" unfolding Map_values_def by auto
    from own[OF k] show "r \<in> set hs" by simp
    fix x assume x: "x \<in> set hs" "chunk_id (chunk x) = chunk_id (chunk r)"
    from best[OF x(1)] obtain kept where kept: "(chunk_id (chunk x), kept) \<in> set ?m"
      "js_le (hybridScore x) (hybridScore kept)"
      by auto
    from own[OF k] x(2) have "k = chunk_id (chunk x)" by simp
    with k kept(1) d have "kept = r" by (meson eq_key_imp_eq_value)
    with kept(2) show "js_le (hybridScore x) (hybridScore r)" by simp
  qed
  show "\<forall>x \<in> set hs.
           (\<exists>r \<in> set ?top. chunk_id (chunk r) = chunk_id (chunk x))
           \<or> (length ?top = nat maxResults
               \<and> (\<forall>r \<in> set ?top. js_le (hybridScore x) (hybridScore r)))"
  proof
    fix x assume x: "x \<in> set hs"
    from best[OF x] obtain kept where kept: "(chunk_id (chunk x), kept) \<in> set ?m"
      "js_le (hybridScore x) (hybridScore kept)"
      by auto
    from own[OF kept(1)] have id: "chunk_id (chunk kept) = chunk_id (chunk x)" by simp
    from kept(1) have "kept \<in> set ?sorted"
      unfolding set_sort_by Map_values_def by force
    then have "kept \<in> set (take (nat maxResults) ?sorted) \<or> kept \<in> set (drop (nat maxResults) ?sorted)"
      by (metis Un_iff append_take_drop_id set_append)
    then show "(\<exists>r \<in> set ?top. chunk_id (chunk r) = chunk_id (chunk x))
           \<or> (length ?top = nat maxResults
               \<and> (\<forall>r \<in> set ?top. js_le (hybridScore x) (hybridScore r)))"
    proof
      assume "kept \<in> set (take (nat maxResults) ?sorted)"
      with id show ?thesis unfolding top by blast
    next
      assume dropped: "kept \<in> set (drop (nat maxResults) ?sorted)"
      then have "drop (nat maxResults) ?sorted \<noteq> []" by auto
      then have full: "length ?top = nat maxResults" unfolding top by simp
      from sorted have "sorted_wrt (\<lambda>a b. js_le (hybridScore b) (hybridScore a))
          (take (nat maxResults) ?sorted @ drop (nat maxResults) ?sorted)" by simp
      then have "\<forall>r \<in> set (take (nat maxResults) ?sorted). js_le (hybridScore kept) (hybridScore r)"
        unfolding sorted_wrt_append using dropped by blast
      with kept(2) have "\<forall>r \<in> set ?top. js_le (hybridScore x) (hybridScore r)"
        unfolding top by (blast intro: js_le_trans)
      with full show ?thesis by blast
    qed
  qed
qed

subsection \<open>Scores on concrete inputs\<close>

lemma foldl_bm25_no_hits:
  "\<forall>t \<in> set ts. docFreq env corpus t = 0
   \<Longrightarrow> foldl (bm25_step_double env docTokens corpus) score ts = score"
  by (induction ts arbitrary: score) (simp_all add: bm25_step_double_def)

lemma bm25_double_no_hits:
  assumes "\<forall>t \<in> set (WordTokenizer_tokenize env (toLowerCase env query)). docFreq env corpus t = 0"
  shows "calculateBM25Score_double env query document corpus = Finite 0"
  using foldl_bm25_no_hits[OF assms] by (simp add: calculateBM25Score_double_def Let_def)

lemma blend_similarity_only:
  "fl_add (fl_mul (round64 (7 / 10)) (Finite 1)) (fl_mul (round64 (3 / 10)) (Finite 0))
     = Finite (6305039478318694 / 2 ^ 53)"
  "fl_add (fl_mul (round64 (7 / 10)) (Finite 0)) (fl_mul (round64 (3 / 10)) (Finite 0)) = Finite 0"
proof -
  have 1: "fl_mul (round64 (7 / 10)) (Finite 1) = Finite (6305039478318694 / 2 ^ 53)"
    unfolding round64_7_10 fl_mul.simps mult_1_right by (rule round64_weight)
  have 0: "fl_mul (round64 (7 / 10)) (Finite 0) = Finite 0"
    unfolding round64_7_10 fl_mul.simps mult_zero_right by (rule round64_0)
  have 3: "fl_mul (round64 (3 / 10)) (Finite 0) = Finite 0"
    unfolding round64_3_10 fl_mul.simps mult_zero_right by (rule round64_0)
  show "fl_add (fl_mul (round64 (7 / 10)) (Finite 1)) (fl_mul (round64 (3 / 10)) (Finite 0))
     = Finite (6305039478318694 / 2 ^ 53)"
    unfolding 1 3 fl_add.simps add_0_right by (rule round64_weight)
  show "fl_add (fl_mul (round64 (7 / 10)) (Finite 0)) (fl_mul (round64 (3 / 10)) (Finite 0)) = Finite 0"
    unfolding 0 3 fl_add.simps add_0_right by (rule round64_0)
qed

lemma magnitude_1_0: "magnitude [Finite 1, Finite 0] = Finite 1"
  by (simp add: magnitude_def round64_1 round64_0)

lemma magnitude_0_1: "magnitude [Finite 0, Finite 1] = Finite 1"
  by (simp add: magnitude_def round64_1 round64_0)

lemma cosine_sample_same:
  "cosineSimilarity sample_services (Some [Finite 1, Finite 0]) (Some [Finite 1, Finite 0]) = Inr (Finite 1)"
  by (simp add: cosineSimilarity_def sample_services_def Let_def magnitude_1_0 dotProduct_def
      round64_1 round64_0)

lemma cosine_sample_orthogonal:
  "cosineSimilarity sample_services (Some [Finite 1, Finite 0]) (Some [Finite 0, Finite 1]) = Inr (Finite 0)"
  by (simp add: cosineSimilarity_def sample_services_def Let_def magnitude_1_0 magnitude_0_1
      dotProduct_def round64_1 round64_0)

lemma sample_tokens:
  "WordTokenizer_tokenize sample_services (toLowerCase sample_services (js ''dog'')) = [js ''dog'']"
  "WordTokenizer_tokenize sample_services (toLowerCase sample_services (js ''dogs'')) = [js ''dogs'']"
  by (simp_all add: sample_services_def js_def ascii_lower_def is_word_char_def)

lemma sample_docFreq:
  "docFreq sample_services [js ''a cat is a pet'', js ''a car is a machine'', js ''cats and pets'']
     (js ''dog'') = 0"
  "docFreq sample_services [js ''a cat is a pet'', js ''a car is a machine'', js ''cats and pets'']
     (js ''dogs'') = 0"
  by (simp_all add: docFreq_def sample_services_def js_def ascii_lower_def)

lemma sample_bm25:
  assumes "v = js ''dog'' \<or> v = js ''dogs''"
  shows "calculateBM25Score_double sample_services v document
           [js ''a cat is a pet'', js ''a car is a machine'', js ''cats and pets''] = Finite 0"
  using assms by (intro bm25_double_no_hits) (auto simp: sample_tokens sample_docFreq)

lemma sample_score_number:
  assumes "v = js ''dog'' \<or> v = js ''dogs''" and "e = [1, 0] \<or> e = [0, 1]"
    and "score_chunk sample_services v [Finite 1, Finite 0]
           [js ''a cat is a pet'', js ''a car is a machine'', js ''cats and pets'']
           (sample_chunk i c e) = Inr x"
  shows "hybridScore x \<noteq> NaN"
  using assms(2,3)
  by (auto simp: score_chunk_def sample_chunk_def cosine_sample_same cosine_sample_orthogonal
      Let_def sample_bm25[OF assms(1)] blend_similarity_only)

lemma round64_huge: "round64 huge = Finite huge"
  by (rule round64_exact[where e = 600 and n = "2 ^ 52"]) (simp_all add: huge_def power_int_minus)

lemma round64_huge_squared: "round64 (huge * huge) = PlusInfinity"
proof -
  define x :: real where "x = 2 powi 1200"
  have sq: "huge * huge = x" by (simp add: huge_def x_def)
  have pos: "0 < x" by (simp add: x_def)
  have e: "exponent64 x = 1200"
    by (rule exponent64_normal) (simp_all add: x_def)
  have "x / 2 powi (1200 - 52) = of_int (2 ^ 52)" by (simp add: x_def)
  then have r: "round_half_even (x / 2 powi (1200 - 52)) = 2 ^ 52"
    by (simp only: round_half_even_int)
  have y: "of_int (2 ^ 52) * 2 powi (1200 - 52) = x" by (simp add: x_def)
  have big: "2 ^ 1024 \<le> \<bar>x\<bar>" by (simp add: x_def)
  show ?thesis
    unfolding sq round64_def Let_def e r y using pos big by simp
qed

lemma magnitude_huge: "magnitude [Finite huge, Finite 0] = PlusInfinity"
  by (simp add: magnitude_def round64_huge_squared round64_0)

lemma cosine_overflow:
  "cosineSimilarity overflow_services (Some [Finite huge, Finite 0]) (Some [Finite huge, Finite 0]) = Inr NaN"
  by (simp add: cosineSimilarity_def overflow_services_def sample_services_def Let_def magnitude_huge
      dotProduct_def round64_huge_squared round64_0)

lemma cosine_against_overflow:
  "cosineSimilarity overflow_services (Some [Finite 1, Finite 0]) (Some [Finite huge, Finite 0]) = Inr (Finite 0)"
  by (simp add: cosineSimilarity_def overflow_services_def sample_services_def Let_def magnitude_huge
      magnitude_1_0 dotProduct_def round64_huge round64_0 signed_infinity_def)

lemma overflow_tokens:
  "WordTokenizer_tokenize overflow_services (toLowerCase overflow_services (js ''cat'')) = [js ''cat'']"
  "WordTokenizer_tokenize overflow_services (toLowerCase overflow_services (js ''dog'')) = [js ''dog'']"
  by (simp_all add: overflow_services_def sample_services_def js_def ascii_lower_def is_word_char_def)

lemma overflow_docFreq:
  "docFreq overflow_services [js ''bird''] (js ''cat'') = 0"
  "docFreq overflow_services [js ''bird''] (js ''dog'') = 0"
  by (simp_all add: docFreq_def overflow_services_def sample_services_def js_def ascii_lower_def)

lemma bm25_no_common_term:
  "calculateBM25Score_double overflow_services (js ''cat'') (js ''bird'') [js ''bird''] = Finite 0"
  "calculateBM25Score_double overflow_services (js ''dog'') (js ''bird'') [js ''bird''] = Finite 0"
  by (rule bm25_double_no_hits; simp add: overflow_tokens overflow_docFreq)+

lemma overflow_embeddings:
  "embedContent overflow_services (js ''cat'') = Inr [Finite huge, Finite 0]"
  "embedContent overflow_services (js ''dog'') = Inr [Finite 1, Finite 0]"
  by (simp_all add: overflow_services_def sample_services_def js_def)

lemma overflow_scores:
  "score_chunk overflow_services (js ''cat'') [Finite huge, Finite 0] [js ''bird'']
       (sample_chunk ''doc_1_chunk_0'' ''bird'' [huge, 0])
     = Inr \<lparr>chunk = sample_chunk ''doc_1_chunk_0'' ''bird'' [huge, 0], vectorScore = NaN,
            bm25Score = Finite 0, hybridScore = NaN, queryVariation = js ''cat''\<rparr>"
  "score_chunk overflow_services (js ''dog'') [Finite 1, Finite 0] [js ''bird'']
       (sample_chunk ''doc_1_chunk_0'' ''bird'' [huge, 0])
     = Inr \<lparr>chunk = sample_chunk ''doc_1_chunk_0'' ''bird'' [huge, 0], vectorScore = Finite 0,
            bm25Score = Finite 0, hybridScore = Finite 0, queryVariation = js ''dog''\<rparr>"
proof -
  let ?c = "sample_chunk ''doc_1_chunk_0'' ''bird'' [huge, 0]"
  have c: "embedding ?c = Some [Finite huge, Finite 0]" "content ?c = js ''bird''"
    by (simp_all add: sample_chunk_def)
  show "score_chunk overflow_services (js ''cat'') [Finite huge, Finite 0] [js ''bird''] ?c
     = Inr \<lparr>chunk = ?c, vectorScore = NaN,
            bm25Score = Finite 0, hybridScore = NaN, queryVariation = js ''cat''\<rparr>"
    by (simp add: score_chunk_def c cosine_overflow bm25_no_common_term round64_0 fl_mul_NaN
        Let_def)
  show "score_chunk overflow_services (js ''dog'') [Finite 1, Finite 0] [js ''bird''] ?c
     = Inr \<lparr>chunk = ?c, vectorScore = Finite 0,
            bm25Score = Finite 0, hybridScore = Finite 0, queryVariation = js ''dog''\<rparr>"
    by (simp add: score_chunk_def c cosine_against_overflow bm25_no_common_term
        blend_similarity_only Let_def)
qed

subsection \<open>The ranked list\<close>

text \<open>
  C2, as first stated: for every corpus, every non-empty sequence of variations and
  every \<open>maxResults\<close>, the ranked list is sorted non-increasing by \<open>hybridScore\<close> and keeps
  for each chunk a candidate of maximal \<open>hybridScore\<close>. It does not when a score is
  \<open>NaN\<close>. Take one chunk whose embedding has an entry so large that its square is
  infinite, a first variation whose embedding is as large, and a second variation with
  the embedding \<open>[1, 0]\<close>; no term of either variation occurs in the chunk, and the
  library call throws. Under the first variation the dot product and both magnitudes
  are infinite, so the similarity and the blended score are \<open>NaN\<close>; under the second the
  blended score is 0. The deduplication keeps the first candidate, because \<open>NaN < 0\<close> is
  false, and the ranked list consists of it: the candidate kept for the chunk does not
  reach the score 0 observed for that chunk.
\<close>

theorem hybrid_retrieval_keeps_NaN:
  "hybrid_retrieval overflow_services [sample_chunk ''doc_1_chunk_0'' ''bird'' [huge, 0]]
       [js ''cat'', js ''dog''] 5
     = Inr [\<lparr>chunk = sample_chunk ''doc_1_chunk_0'' ''bird'' [huge, 0], vectorScore = NaN,
             bm25Score = Finite 0, hybridScore = NaN, queryVariation = js ''cat''\<rparr>]
   \<and> embedContent overflow_services (js ''dog'') = Inr [Finite 1, Finite 0]
   \<and> score_chunk overflow_services (js ''dog'') [Finite 1, Finite 0] [js ''bird'']
         (sample_chunk ''doc_1_chunk_0'' ''bird'' [huge, 0])
       = Inr \<lparr>chunk = sample_chunk ''doc_1_chunk_0'' ''bird'' [huge, 0], vectorScore = Finite 0,
              bm25Score = Finite 0, hybridScore = Finite 0, queryVariation = js ''dog''\<rparr>
   \<and> js_le (Finite 0) NaN = False"
proof -
  let ?c = "sample_chunk ''doc_1_chunk_0'' ''bird'' [huge, 0]"
  have c: "content ?c = js ''bird''" by (simp add: sample_chunk_def)
  have "hybrid_retrieval overflow_services [?c] [js ''cat'', js ''dog''] 5
     = Inr [\<lparr>chunk = ?c, vectorScore = NaN,
             bm25Score = Finite 0, hybridScore = NaN, queryVariation = js ''cat''\<rparr>]"
    by (simp add: hybrid_retrieval_def overflow_embeddings c overflow_scores topResults_def
        unique_step_def Map_get_def Map_values_def sort_by_def slice0_def)
  with overflow_embeddings(2) overflow_scores(2) show ?thesis by simp
qed

text \<open>
  C2, amended. For every corpus of chunks, every non-empty sequence of query variations
  whose embeddings the embedding service delivers, and every non-negative
  \<open>maxResults\<close>, provided no candidate's \<open>hybridScore\<close> is \<open>NaN\<close>: the retrieval step returns
  a ranked list whose length is the smaller of \<open>maxResults\<close> and the number of distinct
  chunk ids of the corpus, with pairwise distinct chunk ids, sorted non-increasing by
  \<open>hybridScore\<close>. Every candidate in it was scored for its chunk under one of the
  variations, and no candidate scored for a chunk with the same id, under any
  variation, has a greater \<open>hybridScore\<close>. A chunk whose id is missing from the list was
  cut off by \<open>maxResults\<close>: the list is full, and none of that chunk's candidates scores
  higher than a candidate of the list.
\<close>

theorem hybrid_retrieval_ranked:
  assumes "0 \<le> maxResults" and "variations \<noteq> []"
    and "\<forall>v \<in> set variations. \<exists>queryVector. embedContent env v = Inr queryVector"
    and "\<forall>v \<in> set variations. \<forall>c \<in> set allChunks. \<forall>queryVector x.
           embedContent env v = Inr queryVector
           \<and> score_chunk env v queryVector (map content allChunks) c = Inr x
           \<longrightarrow> hybridScore x \<noteq> NaN"
  shows "\<exists>top. hybrid_retrieval env allChunks variations maxResults = Inr top
           \<and> length top = min (nat maxResults) (card (chunk_id ` set allChunks))
           \<and> distinct (map (\<lambda>r. chunk_id (chunk r)) top)
           \<and> sorted_wrt (\<lambda>a b. js_le (hybridScore b) (hybridScore a)) top
           \<and> (\<forall>r \<in> set top.
                 (\<exists>v \<in> set variations. \<exists>queryVector.
                     embedContent env v = Inr queryVector
                     \<and> chunk r \<in> set allChunks
                     \<and> score_chunk env v queryVector (map content allChunks) (chunk r) = Inr r)
                 \<and> (\<forall>v \<in> set variations. \<forall>c \<in> set allChunks. \<forall>queryVector x.
                       embedContent env v = Inr queryVector
                       \<and> score_chunk env v queryVector (map content allChunks) c = Inr x
                       \<and> chunk_id c = chunk_id (chunk r)
                       \<longrightarrow> js_le (hybridScore x) (hybridScore r)))
           \<and> (\<forall>c \<in> set allChunks.
                 (\<exists>r \<in> set top. chunk_id (chunk r) = chunk_id c)
                 \<or> (length top = nat maxResults
                     \<and> (\<forall>r \<in> set top. \<forall>v \<in> set variations. \<forall>queryVector x.
                           embedContent env v = Inr queryVector
                           \<and> score_chunk env v queryVector (map content allChunks) c = Inr x
                           \<longrightarrow> js_le (hybridScore x) (hybridScore r))))"
proof -
  from score_variations_set[OF assms(3), of allChunks "[]"]
  obtain hs where hs: "score_variations env allChunks variations [] = Inr hs"
    and set_hs: "set hs = {r. \<exists>v\<in>set variations. \<exists>qv. \<exists>c\<in>set allChunks.
           embedContent env v = Inr qv \<and> score_chunk env v qv (map content allChunks) c = Inr r}"
    by auto
  let ?top = "topResults maxResults hs"
  have res: "hybrid_retrieval env allChunks variations maxResults = Inr ?top"
    using hs by (simp add: hybrid_retrieval_def)
  have numbers: "\<forall>x \<in> set hs. is_number (hybridScore x)"
  proof
    fix x assume "x \<in> set hs"
    then obtain v qv c where v: "v \<in> set variations" "c \<in> set allChunks" "embedContent env v = Inr qv"
      "score_chunk env v qv (map content allChunks) c = Inr x"
      unfolding set_hs by blast
    with assms(4) have "hybridScore x \<noteq> NaN" by blast
    with v(4) show "is_number (hybridScore x)" by (rule score_chunk_number)
  qed
  note props = topResults_properties[OF assms(1) numbers]
  have ids: "(\<lambda>r. chunk_id (chunk r)) ` set hs = chunk_id ` set allChunks"
  proof (intro set_eqI iffI)
    fix k assume "k \<in> (\<lambda>r. chunk_id (chunk r)) ` set hs"
    then obtain r where "r \<in> set hs" "k = chunk_id (chunk r)" by auto
    then obtain v qv c where "c \<in> set allChunks" "score_chunk env v qv (map content allChunks) c = Inr r"
      unfolding set_hs by blast
    with score_chunk_chunk[OF this(2)] \<open>k = chunk_id (chunk r)\<close>
    show "k \<in> chunk_id ` set allChunks" by auto
  next
    fix k assume "k \<in> chunk_id ` set allChunks"
    then obtain c where c: "c \<in> set allChunks" "k = chunk_id c" by auto
    from assms(2) obtain v where v: "v \<in> set variations" by (cases variations) auto
    with assms(3) obtain qv where qv: "embedContent env v = Inr qv" by blast
    obtain r where r: "score_chunk env v qv (map content allChunks) c = Inr r"
      using score_chunk_returns by blast
    with v qv c(1) have "r \<in> set hs" unfolding set_hs by blast
    moreover from score_chunk_chunk[OF r] c(2) have "k = chunk_id (chunk r)" by simp
    ultimately show "k \<in> (\<lambda>r. chunk_id (chunk r)) ` set hs" by blast
  qed
  have 1: "length ?top = min (nat maxResults) (card (chunk_id ` set allChunks))"
    using props(1) unfolding ids .
  have 4: "(\<exists>v \<in> set variations. \<exists>queryVector.
                     embedContent env v = Inr queryVector
                     \<and> chunk r \<in> set allChunks
                     \<and> score_chunk env v queryVector (map content allChunks) (chunk r) = Inr r)
                 \<and> (\<forall>v \<in> set variations. \<forall>c \<in> set allChunks. \<forall>queryVector x.
                       embedContent env v = Inr queryVector
                       \<and> score_chunk env v queryVector (map content allChunks) c = Inr x
                       \<and> chunk_id c = chunk_id (chunk r)
                       \<longrightarrow> js_le (hybridScore x) (hybridScore r))" if r: "r \<in> set ?top" for r
  proof (intro conjI ballI allI impI)
    from props(4) r have "r \<in> set hs" by blast
    then obtain v qv c where v: "v \<in> set variations" "c \<in> set allChunks" "embedContent env v = Inr qv"
      "score_chunk env v qv (map content allChunks) c = Inr r"
      unfolding set_hs by blast
    from score_chunk_chunk[OF v(4)] have "chunk r = c" .
    with v show "\<exists>v \<in> set variations. \<exists>queryVector.
                     embedContent env v = Inr queryVector
                     \<and> chunk r \<in> set allChunks
                     \<and> score_chunk env v queryVector (map content allChunks) (chunk r) = Inr r"
      by blast
  next
    fix v c queryVector x
    assume v: "v \<in> set variations" "c \<in> set allChunks"
      and x: "embedContent env v = Inr queryVector
                \<and> score_chunk env v queryVector (map content allChunks) c = Inr x
                \<and> chunk_id c = chunk_id (chunk r)"
    then have "x \<in> set hs" unfolding set_hs by blast
    moreover from x score_chunk_chunk have "chunk_id (chunk x) = chunk_id (chunk r)" by metis
    ultimately show "js_le (hybridScore x) (hybridScore r)" using props(4) r by blast
  qed
  have 5: "(\<exists>r \<in> set ?top. chunk_id (chunk r) = chunk_id c)
                 \<or> (length ?top = nat maxResults
                     \<and> (\<forall>r \<in> set ?top. \<forall>v \<in> set variations. \<forall>queryVector x.
                           embedContent env v = Inr queryVector
                           \<and> score_chunk env v queryVector (map content allChunks) c = Inr x
                           \<longrightarrow> js_le (hybridScore x) (hybridScore r)))" if c: "c \<in> set allChunks" for c
  proof (cases "\<exists>r \<in> set ?top. chunk_id (chunk r) = chunk_id c")
    case True
    then show ?thesis by blast
  next
    case False
    have cand: "length ?top = nat maxResults \<and> (\<forall>r \<in> set ?top. js_le (hybridScore x) (hybridScore r))"
      if x: "x \<in> set hs" "chunk x = c" for x
      using props(5) x False by auto
    from assms(2) obtain v where v: "v \<in> set variations" by (cases variations) auto
    with assms(3) obtain qv where qv: "embedContent env v = Inr qv" by blast
    obtain x0 where x0: "score_chunk env v qv (map content allChunks) c = Inr x0"
      using score_chunk_returns by blast
    with v qv c have "x0 \<in> set hs" unfolding set_hs by blast
    with cand[of x0] score_chunk_chunk[OF x0] have full: "length ?top = nat maxResults" by simp
    have "js_le (hybridScore x) (hybridScore r)"
      if "r \<in> set ?top" "v \<in> set variations" "embedContent env v = Inr queryVector"
        "score_chunk env v queryVector (map content allChunks) c = Inr x" for r v queryVector x
    proof -
      from that c have "x \<in> set hs" unfolding set_hs by blast
      with cand[of x] score_chunk_chunk[OF that(4)] that(1) show ?thesis by simp
    qed
    with full show ?thesis by blast
  qed
  from res 1 props(2,3) 4 5 show ?thesis by blast
qed

theorem hybrid_retrieval_ranked_witness:
  "\<exists>top. hybrid_retrieval sample_services
            [sample_chunk ''doc_1_chunk_0'' ''a cat is a pet'' [1, 0],
             sample_chunk ''doc_1_chunk_1'' ''a car is a machine'' [0, 1],
             sample_chunk ''doc_1_chunk_0'' ''cats and pets'' [0, 1]]
            [js ''dog'', js ''dogs''] 2 = Inr top
         \<and> length top = 2
         \<and> distinct (map (\<lambda>r. chunk_id (chunk r)) top)
         \<and> sorted_wrt (\<lambda>a b. js_le (hybridScore b) (hybridScore a)) top"
proof -
  let ?chunks = "[sample_chunk ''doc_1_chunk_0'' ''a cat is a pet'' [1, 0],
             sample_chunk ''doc_1_chunk_1'' ''a car is a machine'' [0, 1],
             sample_chunk ''doc_1_chunk_0'' ''cats and pets'' [0, 1]]"
  let ?variations = "[js ''dog'', js ''dogs'']"
  have 1: "(0::int) \<le> 2" by simp
  have 2: "?variations \<noteq> []" by simp
  have embed: "embedContent sample_services v = Inr [Finite 1, Finite 0]" for v
    by (simp add: sample_services_def)
  have 3: "\<forall>v \<in> set ?variations. \<exists>queryVector. embedContent sample_services v = Inr queryVector"
    using embed by blast
  have 4: "\<forall>v \<in> set ?variations. \<forall>c \<in> set ?chunks. \<forall>queryVector x.
           embedContent sample_services v = Inr queryVector
           \<and> score_chunk sample_services v queryVector (map content ?chunks) c = Inr x
           \<longrightarrow> hybridScore x \<noteq> NaN"
  proof (intro ballI allI impI, elim conjE)
    fix v c queryVector x
    assume v: "v \<in> set ?variations" and c: "c \<in> set ?chunks"
      and e: "embedContent sample_services v = Inr queryVector"
      and x: "score_chunk sample_services v queryVector (map content ?chunks) c = Inr x"
    from e have qv: "queryVector = [Finite 1, Finite 0]" unfolding embed by simp
    from c obtain i t e where ce: "c = sample_chunk i t e" "e = [1, 0] \<or> e = [0, 1]" by auto
    have contents: "map content ?chunks
        = [js ''a cat is a pet'', js ''a car is a machine'', js ''cats and pets'']"
      by (simp add: sample_chunk_def)
    from v have "v = js ''dog'' \<or> v = js ''dogs''" by simp
    from sample_score_number[OF this ce(2) x[unfolded qv ce(1) contents]]
    show "hybridScore x \<noteq> NaN" .
  qed
  have "chunk_id ` set ?chunks = {js ''doc_1_chunk_0'', js ''doc_1_chunk_1''}"
    by (auto simp: sample_chunk_def)
  moreover have "js ''doc_1_chunk_0'' \<noteq> js ''doc_1_chunk_1''" by (simp add: js_def)
  ultimately have ids: "card (chunk_id ` set ?chunks) = 2" by simp
  from hybrid_retrieval_ranked [OF 1 2 3 4]
  obtain top where "hybrid_retrieval sample_services ?chunks ?variations 2 = Inr top"
    "length top = min (nat 2) (card (chunk_id ` set ?chunks))"
    "distinct (map (\<lambda>r. chunk_id (chunk r)) top)"
    "sorted_wrt (\<lambda>a b. js_le (hybridScore b) (hybridScore a)) top"
    by blast
  then show ?thesis unfolding ids by simp
qed

section \<open>Properties of the cache key\<close>

subsection \<open>Base64\<close>

lemma length_base64_alphabet: "length base64_alphabet = 64"
  by (simp add: base64_alphabet_def js_def)

lemma unat_base64_alphabet:
  "map unat base64_alphabet = [65..<91] @ [97..<123] @ [48..<58] @ [43, 47]"
  by (simp add: base64_alphabet_def js_def upt_rec)

lemma distinct_base64_alphabet: "distinct base64_alphabet"
proof -
  have "distinct (map unat base64_alphabet)"
    unfolding unat_base64_alphabet by auto
  then show ?thesis by (simp add: distinct_map)
qed

lemma pad_not_in_alphabet: "0x3D \<notin> set base64_alphabet"
proof
  assume "0x3D \<in> set base64_alphabet"
  then have "unat (0x3D :: jschar) \<in> set (map unat base64_alphabet)" by (metis imageI set_map)
  then show False unfolding unat_base64_alphabet by simp
qed

lemma base64_char_inj:
  "i < 64 \<Longrightarrow> j < 64 \<Longrightarrow> base64_char i = base64_char j \<longleftrightarrow> i = j"
  unfolding base64_char_def
  using nth_eq_iff_index_eq[OF distinct_base64_alphabet, of i j] by (simp add: length_base64_alphabet)

lemma base64_char_not_pad: "i < 64 \<Longrightarrow> base64_char i \<noteq> 0x3D"
  unfolding base64_char_def using pad_not_in_alphabet nth_mem[of i base64_alphabet]
  by (metis length_base64_alphabet)

lemma unat_byte: "unat (x :: byte) < 256"
  using unsigned_less[of x, where 'a = nat] by simp

lemma sextets:
  fixes x y z :: byte
  shows "unat x div 4 < 64" "(unat x mod 4) * 16 < 64" "(unat x mod 4) * 16 + unat y div 16 < 64"
    "(unat y mod 16) * 4 < 64" "(unat y mod 16) * 4 + unat z div 64 < 64" "unat z mod 64 < 64"
proof -
  have "unat x mod 4 < 4" "unat y mod 16 < 16" by simp_all
  moreover have "unat x div 4 < 64" "unat y div 16 < 16" "unat z div 64 < 4"
    using unat_byte[of x] unat_byte[of y] unat_byte[of z] by simp_all
  ultimately show "unat x div 4 < 64" "(unat x mod 4) * 16 < 64"
    "(unat x mod 4) * 16 + unat y div 16 < 64"
    "(unat y mod 16) * 4 < 64" "(unat y mod 16) * 4 + unat z div 64 < 64" "unat z mod 64 < 64"
    by simp_all
qed

lemma split16:
  fixes p q p' q' :: nat
  assumes "q < 16" "q' < 16" "p * 16 + q = p' * 16 + q'"
  shows "p = p' \<and> q = q'"
proof -
  have "(p * 16 + q) div 16 = p" "(p' * 16 + q') div 16 = p'" using assms(1,2) by simp_all
  with assms(3) have "p = p'" by simp
  with assms(3) show ?thesis by simp
qed

lemma split4:
  fixes p q p' q' :: nat
  assumes "q < 4" "q' < 4" "p * 4 + q = p' * 4 + q'"
  shows "p = p' \<and> q = q'"
proof -
  have "(p * 4 + q) div 4 = p" "(p' * 4 + q') div 4 = p'" using assms(1,2) by simp_all
  with assms(3) have "p = p'" by simp
  with assms(3) show ?thesis by simp
qed

lemma join4: "(n::nat) div 4 = m div 4 \<Longrightarrow> n mod 4 = m mod 4 \<Longrightarrow> n = m"
  by (metis div_mult_mod_eq)

lemma join16: "(n::nat) div 16 = m div 16 \<Longrightarrow> n mod 16 = m mod 16 \<Longrightarrow> n = m"
  by (metis div_mult_mod_eq)

lemma join64: "(n::nat) div 64 = m div 64 \<Longrightarrow> n mod 64 = m mod 64 \<Longrightarrow> n = m"
  by (metis div_mult_mod_eq)

lemma one_byte:
  fixes x x' :: byte
  assumes "unat x div 4 = unat x' div 4" "(unat x mod 4) * 16 = (unat x' mod 4) * 16"
  shows "x = x'"
proof -
  from assms(2) have "unat x mod 4 = unat x' mod 4" by simp
  with assms(1) have "unat x = unat x'" by (rule join4)
  then show ?thesis by (simp add: word_unat_eq_iff)
qed

lemma two_bytes:
  fixes x x' y y' :: byte
  assumes "unat x div 4 = unat x' div 4"
    "(unat x mod 4) * 16 + unat y div 16 = (unat x' mod 4) * 16 + unat y' div 16"
    "(unat y mod 16) * 4 = (unat y' mod 16) * 4"
  shows "x = x' \<and> y = y'"
proof -
  have "unat y div 16 < 16" "unat y' div 16 < 16"
    using unat_byte[of y] unat_byte[of y'] by simp_all
  from split16[OF this assms(2)]
  have 1: "unat x mod 4 = unat x' mod 4" and 2: "unat y div 16 = unat y' div 16" by simp_all
  from assms(3) have 3: "unat y mod 16 = unat y' mod 16" by simp
  from join4[OF assms(1) 1] join16[OF 2 3] show ?thesis by (simp add: word_unat_eq_iff)
qed

lemma three_bytes:
  fixes x x' y y' z z' :: byte
  assumes "unat x div 4 = unat x' div 4"
    "(unat x mod 4) * 16 + unat y div 16 = (unat x' mod 4) * 16 + unat y' div 16"
    "(unat y mod 16) * 4 + unat z div 64 = (unat y' mod 16) * 4 + unat z' div 64"
    "unat z mod 64 = unat z' mod 64"
  shows "x = x' \<and> y = y' \<and> z = z'"
proof -
  have "unat y div 16 < 16" "unat y' div 16 < 16"
    using unat_byte[of y] unat_byte[of y'] by simp_all
  from split16[OF this assms(2)]
  have 1: "unat x mod 4 = unat x' mod 4" and 2: "unat y div 16 = unat y' div 16" by simp_all
  have "unat z div 64 < 4" "unat z' div 64 < 4"
    using unat_byte[of z] unat_byte[of z'] by simp_all
  from split4[OF this assms(3)]
  have 3: "unat y mod 16 = unat y' mod 16" and 4: "unat z div 64 = unat z' div 64" by simp_all
  from join4[OF assms(1) 1] join16[OF 2 3] join64[OF 4 assms(4)] show ?thesis
    by (simp add: word_unat_eq_iff)
qed

lemma base64_inj: "base64 xs = base64 ys \<Longrightarrow> xs = ys"
proof (induction xs arbitrary: ys rule: base64.induct)
  case 1
  then show ?case by (cases ys rule: base64.cases) simp_all
next
  case (2 x)
  show ?case
  proof (cases ys rule: base64.cases)
    case 1 with 2 show ?thesis by simp
  next
    case (2 x')
    with "2.prems" one_byte[of x x'] show ?thesis
      by (simp add: base64_char_inj sextets)
  next
    case (3 x' y')
    with "2.prems" base64_char_not_pad[OF sextets(4)[of y']] show ?thesis by simp
  next
    case (4 x' y' z' rest)
    with "2.prems" base64_char_not_pad[OF sextets(6)[of z']] show ?thesis by simp
  qed
next
  case (3 x y)
  show ?case
  proof (cases ys rule: base64.cases)
    case 1 with 3 show ?thesis by simp
  next
    case (2 x')
    with "3.prems" base64_char_not_pad[OF sextets(4)[of y]] show ?thesis by simp
  next
    case (3 x' y')
    with "3.prems" two_bytes[of x x' y y'] show ?thesis
      by (simp add: base64_char_inj sextets)
  next
    case (4 x' y' z' rest)
    with "3.prems" base64_char_not_pad[OF sextets(6)[of z']] show ?thesis by simp
  qed
next
  case (4 x y z rest)
  show ?case
  proof (cases ys rule: base64.cases)
    case 1 with "4.prems" show ?thesis by simp
  next
    case (2 x')
    with "4.prems" base64_char_not_pad[OF sextets(6)[of z]] show ?thesis by simp
  next
    case (3 x' y')
    with "4.prems" base64_char_not_pad[OF sextets(6)[of z]] show ?thesis by simp
  next
    case (4 x' y' z' rest')
    with "4.prems" have heads: "base64_char (unat x div 4) = base64_char (unat x' div 4)"
      "base64_char ((unat x mod 4) * 16 + unat y div 16) = base64_char ((unat x' mod 4) * 16 + unat y' div 16)"
      "base64_char ((unat y mod 16) * 4 + unat z div 64) = base64_char ((unat y' mod 16) * 4 + unat z' div 64)"
      "base64_char (unat z mod 64) = base64_char (unat z' mod 64)"
      and tails: "base64 rest = base64 rest'"
      by simp_all
    from heads three_bytes[of x x' y y' z z'] have "x = x' \<and> y = y' \<and> z = z'"
      by (simp add: base64_char_inj sextets)
    moreover from "4.IH"[OF tails] have "rest = rest'" .
    ultimately show ?thesis using 4 by simp
  qed
qed

subsection \<open>UTF-8 encoding\<close>

lemma byte_of_nat_eq: "a < 256 \<Longrightarrow> c < 256 \<Longrightarrow> (of_nat a :: byte) = of_nat c \<longleftrightarrow> a = c"
  by (simp add: word_of_nat_eq_iff take_bit_nat_eq_self)

lemma join4096: "(n::nat) div 4096 = m div 4096 \<Longrightarrow> (n div 64) mod 64 = (m div 64) mod 64 \<Longrightarrow> n mod 64 = m mod 64 \<Longrightarrow> n = m"
proof -
  assume a: "n div 4096 = m div 4096" "(n div 64) mod 64 = (m div 64) mod 64" "n mod 64 = m mod 64"
  have "n div 64 div 64 = m div 64 div 64" using a(1) by (simp add: div_mult2_eq[symmetric])
  from this a(2) have "n div 64 = m div 64" by (rule join64)
  from this a(3) show "n = m" by (rule join64)
qed

lemma join262144: "(n::nat) div 262144 = m div 262144 \<Longrightarrow> (n div 4096) mod 64 = (m div 4096) mod 64 \<Longrightarrow> (n div 64) mod 64 = (m div 64) mod 64 \<Longrightarrow> n mod 64 = m mod 64 \<Longrightarrow> n = m"
proof -
  assume a: "n div 262144 = m div 262144" "(n div 4096) mod 64 = (m div 4096) mod 64" "(n div 64) mod 64 = (m div 64) mod 64" "n mod 64 = m mod 64"
  have "n div 4096 div 64 = m div 4096 div 64" using a(1) by (simp add: div_mult2_eq[symmetric])
  from this a(2) have "n div 4096 = m div 4096" by (rule join64)
  from join4096[OF this a(3) a(4)] show "n = m" .
qed

lemma high_nat: "is_high_surrogate c \<longleftrightarrow> 0xD800 \<le> unat c \<and> unat c \<le> 0xDBFF"
  by (simp add: is_high_surrogate_def word_le_nat_alt)

lemma low_nat: "is_low_surrogate c \<longleftrightarrow> 0xDC00 \<le> unat c \<and> unat c \<le> 0xDFFF"
  by (simp add: is_low_surrogate_def word_le_nat_alt)

lemma unat_jschar: "unat (c :: jschar) < 0x10000"
  using unsigned_less[of c, where 'a = nat] by simp

lemma scalar_value_bound: "scalar_value c < 0x10000"
  using unat_jschar[of c] by (simp add: scalar_value_def)

lemma pair_value_bounds:
  "is_high_surrogate c \<Longrightarrow> is_low_surrogate d \<Longrightarrow> 0x10000 \<le> pair_value c d \<and> pair_value c d < 0x110000"
proof -
  assume "is_high_surrogate c" "is_low_surrogate d"
  then have "unat c - 0xD800 \<le> 1023" "unat d - 0xDC00 \<le> 1023"
    unfolding high_nat low_nat by linarith+
  moreover from this(1) have "(unat c - 0xD800) * 1024 \<le> 1023 * 1024" by (rule mult_le_mono1)
  ultimately show ?thesis unfolding pair_value_def by simp
qed

lemma code_points_valid: "\<forall>cp \<in> set (code_points s). cp < 0x110000"
proof (induction s rule: code_points.induct)
  case 1 show ?case by simp
next
  case (2 c) show ?case using scalar_value_bound[of c] by simp
next
  case (3 c d s)
  then show ?case using scalar_value_bound[of c] pair_value_bounds[of c d] by auto
qed

lemma offset_byte_eq:
  assumes "k + x < 256" "k + y < 256" "(of_nat (k + x) :: byte) = of_nat (k + y)"
  shows "x = y"
proof -
  from byte_of_nat_eq[OF assms(1,2)] assms(3) have "k + x = k + y" by blast
  then show ?thesis by simp
qed

lemma continuation_byte_eq:
  assumes "(of_nat (0x80 + x mod 64) :: byte) = of_nat (0x80 + y mod 64)"
  shows "x mod 64 = y mod (64::nat)"
proof -
  have "0x80 + x mod 64 < 256" "0x80 + y mod 64 < 256" by simp_all
  from offset_byte_eq[OF this assms] show ?thesis .
qed

lemma lead_byte:
  assumes "cp < 0x110000"
  obtains lead rest where "utf8_code_point cp = of_nat lead # rest" "lead < 256"
    "cp < 0x80 \<longleftrightarrow> lead < 0x80" "cp < 0x800 \<longleftrightarrow> lead < 0xE0"
    "cp < 0x10000 \<longleftrightarrow> lead < 0xF0"
proof -
  have d2: "cp < 0x800 \<Longrightarrow> cp div 64 < 32" by simp
  have d3: "cp < 0x10000 \<Longrightarrow> cp div 4096 < 16" by simp
  have d4: "cp div 262144 < 5" using assms by simp
  consider "cp < 0x80" | "0x80 \<le> cp" "cp < 0x800" | "0x800 \<le> cp" "cp < 0x10000" | "0x10000 \<le> cp"
    by linarith
  then show thesis
  proof cases
    case 1
    then show thesis using that[of cp "[]"] by (simp add: utf8_code_point_def)
  next
    case 2
    with d2 show thesis
      using that[of "0xC0 + cp div 64" "[of_nat (0x80 + cp mod 64)]"]
      by (simp add: utf8_code_point_def)
  next
    case 3
    with d3 show thesis
      using that[of "0xE0 + cp div 4096"
          "[of_nat (0x80 + (cp div 64) mod 64), of_nat (0x80 + cp mod 64)]"]
      by (simp add: utf8_code_point_def)
  next
    case 4
    with d4 show thesis
      using that[of "0xF0 + cp div 262144"
          "[of_nat (0x80 + (cp div 4096) mod 64), of_nat (0x80 + (cp div 64) mod 64),
            of_nat (0x80 + cp mod 64)]"]
      by (simp add: utf8_code_point_def)
  qed
qed

lemma utf8_code_point_prefix:
  assumes "cp < 0x110000" "cp' < 0x110000" "utf8_code_point cp @ r = utf8_code_point cp' @ r'"
  shows "cp = cp' \<and> r = r'"
proof -
  obtain l1 rest1 where l1: "utf8_code_point cp = of_nat l1 # rest1" "l1 < 256"
    "cp < 0x80 \<longleftrightarrow> l1 < 0x80" "cp < 0x800 \<longleftrightarrow> l1 < 0xE0"
    "cp < 0x10000 \<longleftrightarrow> l1 < 0xF0"
    using assms(1) by (rule lead_byte)
  obtain l2 rest2 where l2: "utf8_code_point cp' = of_nat l2 # rest2" "l2 < 256"
    "cp' < 0x80 \<longleftrightarrow> l2 < 0x80" "cp' < 0x800 \<longleftrightarrow> l2 < 0xE0"
    "cp' < 0x10000 \<longleftrightarrow> l2 < 0xF0"
    using assms(2) by (rule lead_byte)
  from assms(3) l1(1) l2(1) have "(of_nat l1 :: byte) = of_nat l2" by simp
  with l1(2) l2(2) have eq: "l1 = l2" by (simp add: byte_of_nat_eq)
  have same: "(cp < 0x80 \<longleftrightarrow> cp' < 0x80) \<and> (cp < 0x800 \<longleftrightarrow> cp' < 0x800) \<and> (cp < 0x10000 \<longleftrightarrow> cp' < 0x10000)"
    using l1(3-5) l2(3-5) unfolding eq by blast
  have b2: "\<And>n::nat. n < 0x800 \<Longrightarrow> 0xC0 + n div 64 < 256" by simp
  have b3: "\<And>n::nat. n < 0x10000 \<Longrightarrow> 0xE0 + n div 4096 < 256" by simp
  have b4: "\<And>n::nat. n < 0x110000 \<Longrightarrow> 0xF0 + n div 262144 < 256" by simp
  consider "cp < 0x80" | "0x80 \<le> cp" "cp < 0x800" | "0x800 \<le> cp" "cp < 0x10000" | "0x10000 \<le> cp"
    by linarith
  then show ?thesis
  proof cases
    case 1
    with same have "cp' < 0x80" by simp
    with 1 assms(3) show ?thesis by (simp add: utf8_code_point_def byte_of_nat_eq)
  next
    case 2
    with same have c': "0x80 \<le> cp'" "cp' < 0x800" by simp_all
    from 2 c' assms(3) have w: "(of_nat (0xC0 + cp div 64) :: byte) = of_nat (0xC0 + cp' div 64)"
      "(of_nat (0x80 + cp mod 64) :: byte) = of_nat (0x80 + cp' mod 64)" "r = r'"
      by (simp_all add: utf8_code_point_def)
    have "cp div 64 = cp' div 64" using b2[OF 2(2)] b2[OF c'(2)] w(1) by (rule offset_byte_eq)
    moreover have "cp mod 64 = cp' mod 64" using w(2) by (rule continuation_byte_eq)
    ultimately have "cp = cp'" by (rule join64)
    then show ?thesis using w(3) by (rule conjI)
  next
    case 3
    with same have c': "0x800 \<le> cp'" "cp' < 0x10000" by simp_all
    from 3 c' assms(3) have w: "(of_nat (0xE0 + cp div 4096) :: byte) = of_nat (0xE0 + cp' div 4096)"
      "(of_nat (0x80 + (cp div 64) mod 64) :: byte) = of_nat (0x80 + (cp' div 64) mod 64)"
      "(of_nat (0x80 + cp mod 64) :: byte) = of_nat (0x80 + cp' mod 64)" "r = r'"
      by (simp_all add: utf8_code_point_def)
    have "cp div 4096 = cp' div 4096" using b3[OF 3(2)] b3[OF c'(2)] w(1) by (rule offset_byte_eq)
    moreover have "(cp div 64) mod 64 = (cp' div 64) mod 64" using w(2) by (rule continuation_byte_eq)
    moreover have "cp mod 64 = cp' mod 64" using w(3) by (rule continuation_byte_eq)
    ultimately have "cp = cp'" by (rule join4096)
    then show ?thesis using w(4) by (rule conjI)
  next
    case 4
    with same have c': "0x10000 \<le> cp'" by simp
    from 4 c' assms(3) have w: "(of_nat (0xF0 + cp div 262144) :: byte) = of_nat (0xF0 + cp' div 262144)"
      "(of_nat (0x80 + (cp div 4096) mod 64) :: byte) = of_nat (0x80 + (cp' div 4096) mod 64)"
      "(of_nat (0x80 + (cp div 64) mod 64) :: byte) = of_nat (0x80 + (cp' div 64) mod 64)"
      "(of_nat (0x80 + cp mod 64) :: byte) = of_nat (0x80 + cp' mod 64)" "r = r'"
      by (simp_all add: utf8_code_point_def)
    have "cp div 262144 = cp' div 262144"
      using b4[OF assms(1)] b4[OF assms(2)] w(1) by (rule offset_byte_eq)
    moreover have "(cp div 4096) mod 64 = (cp' div 4096) mod 64" using w(2) by (rule continuation_byte_eq)
    moreover have "(cp div 64) mod 64 = (cp' div 64) mod 64" using w(3) by (rule continuation_byte_eq)
    moreover have "cp mod 64 = cp' mod 64" using w(4) by (rule continuation_byte_eq)
    ultimately have "cp = cp'" by (rule join262144)
    then show ?thesis using w(5) by (rule conjI)
  qed
qed

lemma concat_utf8_inj:
  assumes "\<forall>cp \<in> set xs. cp < 0x110000" "\<forall>cp \<in> set ys. cp < 0x110000"
    "concat (map utf8_code_point xs) = concat (map utf8_code_point ys)"
  shows "xs = ys"
  using assms
proof (induction xs arbitrary: ys)
  case Nil
  then show ?case
  proof (cases ys)
    case (Cons y ys')
    with Nil.prems(2) obtain l rest where "utf8_code_point y = of_nat l # rest"
      using lead_byte[of y] by (metis list.set_intros(1))
    with Nil.prems(3) Cons show ?thesis by simp
  qed simp
next
  case (Cons x xs)
  show ?case
  proof (cases ys)
    case Nil
    from Cons.prems(1) obtain l rest where "utf8_code_point x = of_nat l # rest"
      using lead_byte[of x] by (metis list.set_intros(1))
    with Cons.prems(3) Nil show ?thesis by simp
  next
    case (Cons y ys')
    with Cons.prems have "x < 0x110000" "y < 0x110000"
      "utf8_code_point x @ concat (map utf8_code_point xs) = utf8_code_point y @ concat (map utf8_code_point ys')"
      by simp_all
    from utf8_code_point_prefix[OF this] have "x = y" "concat (map utf8_code_point xs) = concat (map utf8_code_point ys')"
      by simp_all
    moreover from Cons.prems \<open>ys = y # ys'\<close> have "\<forall>cp \<in> set xs. cp < 0x110000" "\<forall>cp \<in> set ys'. cp < 0x110000" by simp_all
    ultimately show ?thesis using Cons.IH[of ys'] \<open>ys = y # ys'\<close> by simp
  qed
qed

lemma code_points_eq_Nil: "code_points s = [] \<longleftrightarrow> s = []"
  by (cases s rule: code_points.cases) simp_all

lemma Nil_eq_code_points: "[] = code_points s \<longleftrightarrow> s = []"
  by (cases s rule: code_points.cases) simp_all

lemma scalar_not_pair:
  assumes "is_high_surrogate c'" "is_low_surrogate d'"
  shows "scalar_value c \<noteq> pair_value c' d'"
  using scalar_value_bound[of c] pair_value_bounds[OF assms] by simp

lemma scalar_value_inj:
  assumes "\<not> is_high_surrogate c" "\<not> is_low_surrogate c"
    "\<not> is_high_surrogate c'" "\<not> is_low_surrogate c'" "scalar_value c = scalar_value c'"
  shows "c = c'"
  using assms by (simp add: scalar_value_def word_unat_eq_iff)

lemma split1024:
  fixes p q p' q' :: nat
  assumes "q < 1024" "q' < 1024" "p * 1024 + q = p' * 1024 + q'"
  shows "p = p' \<and> q = q'"
proof -
  have "(p * 1024 + q) div 1024 = p" "(p' * 1024 + q') div 1024 = p'" using assms(1,2) by simp_all
  with assms(3) have "p = p'" by simp
  with assms(3) show ?thesis by simp
qed

lemma pair_value_inj:
  assumes "is_high_surrogate c" "is_low_surrogate d" "is_high_surrogate c'" "is_low_surrogate d'"
    "pair_value c d = pair_value c' d'"
  shows "c = c' \<and> d = d'"
proof -
  from assms(2,4) have "unat d - 0xDC00 < 1024" "unat d' - 0xDC00 < 1024"
    unfolding low_nat by linarith+
  moreover from assms(5)
  have "(unat c - 0xD800) * 1024 + (unat d - 0xDC00) = (unat c' - 0xD800) * 1024 + (unat d' - 0xDC00)"
    by (simp add: pair_value_def)
  ultimately have "unat c - 0xD800 = unat c' - 0xD800 \<and> unat d - 0xDC00 = unat d' - 0xDC00"
    by (rule split1024)
  with assms(1-4) have "unat c = unat c'" "unat d = unat d'"
    unfolding high_nat low_nat by linarith+
  then show ?thesis by (simp add: word_unat_eq_iff)
qed

lemma code_points_inj:
  "well_formed s \<Longrightarrow> well_formed t \<Longrightarrow> code_points s = code_points t \<Longrightarrow> s = t"
proof (induction s arbitrary: t rule: code_points.induct)
  case 1
  then have "code_points t = []" by simp
  then show ?case by (simp add: code_points_eq_Nil)
next
  case (2 c)
  show ?case
  proof (cases t rule: code_points.cases)
    case 1
    with 2 show ?thesis by simp
  next
    case (2 c')
    with "2.prems" scalar_value_inj[of c c'] show ?thesis by simp
  next
    case (3 c' d' t')
    with "2.prems" scalar_not_pair[of c' d' c] show ?thesis
      by (auto simp: code_points_eq_Nil Nil_eq_code_points split: if_splits)
  qed
next
  case (3 c d s)
  show ?case
  proof (cases t rule: code_points.cases)
    case 1
    with "3.prems" show ?thesis by (simp split: if_splits)
  next
    case (2 c')
    with "3.prems" scalar_not_pair[of c d c'] show ?thesis
      by (auto simp: code_points_eq_Nil Nil_eq_code_points split: if_splits)
  next
    case t: (3 c' d' t')
    show ?thesis
    proof (cases "is_high_surrogate c \<and> is_low_surrogate d")
      case True
      show ?thesis
      proof (cases "is_high_surrogate c' \<and> is_low_surrogate d'")
        case c': True
        from "3.prems" t True c' have eq: "pair_value c d = pair_value c' d'"
          "code_points s = code_points t'" "well_formed s" "well_formed t'" by simp_all
        from pair_value_inj[of c d c' d'] True c' eq(1) have "c = c' \<and> d = d'" by blast
        moreover from "3.IH"(1)[OF True eq(3,4,2)] have "s = t'" .
        ultimately show ?thesis using t by simp
      next
        case False
        with "3.prems" t True scalar_not_pair[of c d c'] show ?thesis by auto
      qed
    next
      case False
      show ?thesis
      proof (cases "is_high_surrogate c' \<and> is_low_surrogate d'")
        case True
        with "3.prems" t False scalar_not_pair[of c' d' c] show ?thesis by auto
      next
        case c': False
        from "3.prems" t False c' have eq: "scalar_value c = scalar_value c'"
          "code_points (d # s) = code_points (d' # t')" "well_formed (d # s)" "well_formed (d' # t')"
          and ns: "\<not> is_high_surrogate c" "\<not> is_low_surrogate c"
            "\<not> is_high_surrogate c'" "\<not> is_low_surrogate c'"
          by simp_all
        from scalar_value_inj[OF ns eq(1)] have "c = c'" .
        moreover from "3.IH"(2)[OF False eq(3,4,2)] have "d # s = d' # t'" .
        ultimately show ?thesis using t by simp
      qed
    qed
  qed
qed

lemma utf8_encode_inj:
  assumes "well_formed s" "well_formed t" "utf8_encode s = utf8_encode t"
  shows "s = t"
proof -
  from concat_utf8_inj[OF code_points_valid code_points_valid] assms(3)
  have "code_points s = code_points t" unfolding utf8_encode_def .
  with assms(1,2) show ?thesis by (rule code_points_inj)
qed

subsection \<open>The key\<close>

lemma validate_sample: "validate sample_body = Inr sample_request"
  by (simp add: validate_def sample_body_def sample_request_def js_def)

text \<open>
  C1, as first stated: two requests that differ in the question, in \<open>maxResults\<close> or in
  \<open>includeMetadata\<close> have distinct keys. They need not: the valid requests for the
  question \<open>What is a cat?\<close> with \<open>maxResults = 5\<close>, \<open>includeMetadata = false\<close> and with
  \<open>maxResults = 20\<close>, \<open>includeMetadata = true\<close> are different requests with the same key.
\<close>

theorem cacheKey_ignores_parameters_counterexample:
  "validate sample_body = Inr sample_request
   \<and> validate (sample_body\<lparr>body_includeMetadata := Some True, body_maxResults := Some 20\<rparr>)
       = Inr (sample_request\<lparr>req_includeMetadata := True, req_maxResults := 20\<rparr>)
   \<and> sample_request \<noteq> sample_request\<lparr>req_includeMetadata := True, req_maxResults := 20\<rparr>
   \<and> cacheKey sample_request
       = cacheKey (sample_request\<lparr>req_includeMetadata := True, req_maxResults := 20\<rparr>)"
  by (simp add: validate_def sample_body_def sample_request_def js_def cacheKey_def)

text \<open>
  Without the proviso of well-formedness two different questions can share a key: an
  unpaired surrogate is encoded like U+FFFD.
\<close>

lemma unpaired_surrogate_collides: "utf8_encode [0xD800] = utf8_encode [0xFFFD]"
  by (simp add: utf8_encode_def scalar_value_def is_high_surrogate_def is_low_surrogate_def)

text \<open>
  C1, amended. The cache key is a function of the question text alone, which is used as
  it was sent: requests with the same question have the same key, whatever their
  \<open>maxResults\<close> and \<open>includeMetadata\<close> are; two requests have the same key exactly when the
  UTF-8 encodings of their questions are the same; and for well-formed questions that
  is exactly when the questions are the same.
\<close>

theorem cacheKey_determined_by_question:
  "(req_question r1 = req_question r2 \<longrightarrow> cacheKey r1 = cacheKey r2)
   \<and> (cacheKey r1 = cacheKey r2
        \<longleftrightarrow> utf8_encode (req_question r1) = utf8_encode (req_question r2))
   \<and> (well_formed (req_question r1) \<and> well_formed (req_question r2)
        \<longrightarrow> (cacheKey r1 = cacheKey r2 \<longleftrightarrow> req_question r1 = req_question r2))"
proof -
  have key: "cacheKey r1 = cacheKey r2
        \<longleftrightarrow> utf8_encode (req_question r1) = utf8_encode (req_question r2)"
    using base64_inj by (auto simp: cacheKey_def)
  moreover have "utf8_encode (req_question r1) = utf8_encode (req_question r2)
                   \<longleftrightarrow> req_question r1 = req_question r2"
    if "well_formed (req_question r1)" "well_formed (req_question r2)"
    using utf8_encode_inj[OF that] by auto
  ultimately show ?thesis by auto
qed

theorem cacheKey_determined_by_question_witness:
  "well_formed (js ''What is a cat?'') \<and> well_formed (js ''What is a dog?'')
   \<and> cacheKey sample_request \<noteq> cacheKey (sample_request\<lparr>req_question := js ''What is a dog?''\<rparr>)
   \<and> cacheKey sample_request = cacheKey (sample_request\<lparr>req_maxResults := 7\<rparr>)"
proof -
  have wf: "well_formed (js ''What is a cat?'')" "well_formed (js ''What is a dog?'')"
    by (simp_all add: js_def is_high_surrogate_def is_low_surrogate_def)
  have ne: "js ''What is a cat?'' \<noteq> js ''What is a dog?''"
    by (simp add: js_def)
  from cacheKey_determined_by_question
         [of sample_request "sample_request\<lparr>req_question := js ''What is a dog?''\<rparr>",
          THEN conjunct2, THEN conjunct2]
       wf ne
  have "cacheKey sample_request \<noteq> cacheKey (sample_request\<lparr>req_question := js ''What is a dog?''\<rparr>)"
    by (simp add: sample_request_def)
  moreover from cacheKey_determined_by_question
         [of sample_request "sample_request\<lparr>req_maxResults := 7\<rparr>", THEN conjunct1]
  have "cacheKey sample_request = cacheKey (sample_request\<lparr>req_maxResults := 7\<rparr>)"
    by simp
  ultimately show ?thesis using wf by simp
qed

section \<open>Properties of the query operation\<close>

lemma expansion_prompt_not_answer_prompt: "expansion_prompt q n \<noteq> answer_prompt context q'"
  by (simp add: expansion_prompt_def answer_prompt_def js_def)

text \<open>
  C4, as first stated: for every valid question and an empty corpus, the result has no
  sources and no call is made to the generation service. Two runs on an empty corpus
  show otherwise. With an empty cache, the generation service is called once, with the
  query-expansion prompt, before the corpus is read. With a cache that holds a result
  for the question, the cached result with its one source is returned, and the corpus
  is not read at all.
\<close>

theorem empty_corpus_counterexample:
  "out_generation_calls (post_query sample_services (Inr []) 10
      \<lparr>st_cache = Map.empty, st_metrics = initial_metrics\<rparr> sample_body)
     = [expansion_prompt (js ''What is a cat?'') 3]
   \<and> out_response (post_query sample_services (Inr []) 10
      \<lparr>st_cache = [cacheKey sample_request \<mapsto> sample_cached], st_metrics = initial_metrics\<rparr> sample_body)
     = Json (sample_cached\<lparr>res_cached := True\<rparr>)
   \<and> length (res_sources (sample_cached\<lparr>res_cached := True\<rparr>)) = 1"
  by (simp add: post_query_def validate_sample answer_uncached_def generateMultipleQueries_def
      sample_services_def sample_request_def sample_cached_def)

text \<open>
  C4, amended. For every valid request whose key is not in the cache, if the corpus of
  chunks with embeddings is empty, the query operation returns the well-formed result
  with no sources and the answer that no documents have been uploaded, and leaves the
  cache and the metrics as they were. The generation service is called exactly once,
  with the query-expansion prompt; no answer-generation prompt is sent.
\<close>

theorem empty_corpus_short_circuit:
  assumes "validate body = Inr req" and "st_cache st (cacheKey req) = None"
  shows "\<exists>variations.
           post_query env (Inr []) rt st body =
             \<lparr>out_response = Json (no_documents (req_question req # variations)),
              out_state = st,
              out_generation_calls = [expansion_prompt (req_question req) 3]\<rparr>
           \<and> res_sources (no_documents (req_question req # variations)) = []
           \<and> res_answer (no_documents (req_question req # variations))
               = js ''No documents have been uploaded yet. Please upload a PDF first.''
           \<and> (\<forall>context. answer_prompt context (req_question req)
                  \<notin> set (out_generation_calls (post_query env (Inr []) rt st body)))"
proof -
  from generateMultipleQueries_returns[of env "req_question req" 3]
  obtain variations where "generateMultipleQueries env (req_question req) 3 = Inr (req_question req # variations)"
    by blast
  with assms have "post_query env (Inr []) rt st body =
             \<lparr>out_response = Json (no_documents (req_question req # variations)),
              out_state = st,
              out_generation_calls = [expansion_prompt (req_question req) 3]\<rparr>"
    by (simp add: post_query_def answer_uncached_def)
  then show ?thesis
    using expansion_prompt_not_answer_prompt[of "req_question req" 3, symmetric]
    by (auto simp: no_documents_def)
qed

theorem empty_corpus_short_circuit_witness:
  "\<exists>variations.
     post_query sample_services (Inr []) 10
       \<lparr>st_cache = Map.empty, st_metrics = initial_metrics\<rparr> sample_body =
       \<lparr>out_response = Json (no_documents (js ''What is a cat?'' # variations)),
        out_state = \<lparr>st_cache = Map.empty, st_metrics = initial_metrics\<rparr>,
        out_generation_calls = [expansion_prompt (js ''What is a cat?'') 3]\<rparr>"
proof -
  have "st_cache \<lparr>st_cache = Map.empty, st_metrics = initial_metrics\<rparr> (cacheKey sample_request) = None"
    by simp
  from empty_corpus_short_circuit [OF validate_sample this, of sample_services 10]
  show ?thesis by (auto simp: sample_request_def)
qed

end
